theory Spec2Isabelle
  imports
    Main
    "HOL-Library.AList"
    "HOL-Library.Char_ord"
    "HOL-Library.List_Lexorder"
    "HOL-Library.Product_Lexorder"
begin

section \<open>The licence manager of \<^verbatim>\<open>polarion_license_manager.py\<close>\<close>

text \<open>
  The development embeds the reconciliation engine of class
  \<^verbatim>\<open>PolarionLicenseManager\<close>: the parser of the configuration text, the per-user
  table, the operations add, remove and switch, the serializer, the query and the
  classification of mixed identifiers.

  Python strings are modelled as \<^typ>\<open>string\<close>, one \<^typ>\<open>char\<close> per code point, so the
  model covers the texts whose code points are below 256. The character classes below are
  those of Python 3 on that range. Python integers are \<^typ>\<open>int\<close>. A dictionary is an
  association list in insertion order: a lookup is \<^const>\<open>map_of\<close>, an assignment
  \<^verbatim>\<open>d[k] = v\<close> is \<^const>\<open>AList.update\<close>, which replaces the value in place or appends
  the new key at the end, as a Python dictionary does.
\<close>

subsection \<open>Characters and strings\<close>

definition code :: "char \<Rightarrow> nat" where
  "code c = of_char c"

text \<open>\<^verbatim>\<open>str.lower\<close>: the upper-case letters of ASCII and of Latin-1 move up by 32.\<close>

definition lower_char :: "char \<Rightarrow> char" where
  "lower_char c =
     (if (65 \<le> code c \<and> code c \<le> 90) \<or> (192 \<le> code c \<and> code c \<le> 222 \<and> code c \<noteq> 215)
      then char_of (code c + 32) else c)"

definition lower :: "string \<Rightarrow> string" where
  "lower s = map lower_char s"

text \<open>\<^verbatim>\<open>str.upper\<close> on the range of the model; it is applied to \<^verbatim>\<open>assignment_type\<close>
  only. The two code points whose upper case leaves the range (\<^verbatim>\<open>0xB5\<close>, \<^verbatim>\<open>0xFF\<close>) and
  \<^verbatim>\<open>0xDF\<close>, whose upper case is two letters, are left as they are.\<close>

definition upper_char :: "char \<Rightarrow> char" where
  "upper_char c =
     (if (97 \<le> code c \<and> code c \<le> 122) \<or> (224 \<le> code c \<and> code c \<le> 254 \<and> code c \<noteq> 247)
      then char_of (code c - 32) else c)"

definition upper :: "string \<Rightarrow> string" where
  "upper s = map upper_char s"

text \<open>The white space that \<^verbatim>\<open>str.strip()\<close> and \<^verbatim>\<open>str.split()\<close> remove.\<close>

definition is_space :: "char \<Rightarrow> bool" where
  "is_space c =
     ((9 \<le> code c \<and> code c \<le> 13) \<or> (28 \<le> code c \<and> code c \<le> 32)
      \<or> code c = 133 \<or> code c = 160)"

text \<open>The class \<^verbatim>\<open>\d\<close> of \<^verbatim>\<open>re\<close>: the decimal digits.\<close>

definition is_digit :: "char \<Rightarrow> bool" where
  "is_digit c = (48 \<le> code c \<and> code c \<le> 57)"

text \<open>\<^verbatim>\<open>str.isalnum\<close> on one character: letters, digits and the numeric characters
  of Latin-1.\<close>

definition is_alnum :: "char \<Rightarrow> bool" where
  "is_alnum c =
     ((48 \<le> code c \<and> code c \<le> 57) \<or> (65 \<le> code c \<and> code c \<le> 90)
      \<or> (97 \<le> code c \<and> code c \<le> 122)
      \<or> code c = 170 \<or> code c = 178 \<or> code c = 179 \<or> code c = 181
      \<or> code c = 185 \<or> code c = 186 \<or> (188 \<le> code c \<and> code c \<le> 190)
      \<or> (192 \<le> code c \<and> code c \<le> 214) \<or> (216 \<le> code c \<and> code c \<le> 246)
      \<or> 248 \<le> code c)"

text \<open>The class \<^verbatim>\<open>\w\<close> of \<^verbatim>\<open>re\<close>: alphanumeric or underscore.\<close>

definition is_word :: "char \<Rightarrow> bool" where
  "is_word c = (is_alnum c \<or> c = CHR ''_'')"

definition strip :: "string \<Rightarrow> string" where
  "strip s = rev (dropWhile is_space (rev (dropWhile is_space s)))"

text \<open>\<^verbatim>\<open>s.startswith(p)\<close> and \<^verbatim>\<open>p in s\<close>.\<close>

definition startswith :: "string \<Rightarrow> string \<Rightarrow> bool" where
  "startswith s p = (take (length p) s = p)"

fun contains :: "string \<Rightarrow> string \<Rightarrow> bool" where
  "contains [] p = (p = [])"
| "contains (c # s) p = (startswith (c # s) p \<or> contains s p)"

text \<open>\<^verbatim>\<open>s.split(sep)\<close> for a separator of one character: never an empty list.\<close>

fun split_on :: "char \<Rightarrow> string \<Rightarrow> string list" where
  "split_on sep [] = [[]]"
| "split_on sep (c # s) =
     (if c = sep then [] # split_on sep s
      else (case split_on sep s of
              [] \<Rightarrow> [[c]]
            | w # ws \<Rightarrow> (c # w) # ws))"

text \<open>\<^verbatim>\<open>sep.join(xs)\<close>.\<close>

fun join :: "string \<Rightarrow> string list \<Rightarrow> string" where
  "join sep [] = []"
| "join sep [x] = x"
| "join sep (x # y # xs) = x @ sep @ join sep (y # xs)"

text \<open>\<^verbatim>\<open>str(n)\<close> for an integer, and \<^verbatim>\<open>int(s)\<close> for a string of decimal digits.
  CPython from version 3.11 on raises \<^verbatim>\<open>ValueError\<close> in \<^verbatim>\<open>int(s)\<close> for more than 4300
  digits unless \<^verbatim>\<open>sys.set_int_max_str_digits\<close> lifts the limit; the model is the
  conversion without that limit.\<close>

definition digit_char :: "nat \<Rightarrow> char" where
  "digit_char d = char_of (48 + d)"

fun str_nat :: "nat \<Rightarrow> string" where
  "str_nat n = (if n < 10 then [digit_char n] else str_nat (n div 10) @ [digit_char (n mod 10)])"

declare str_nat.simps [simp del]

definition str_int :: "int \<Rightarrow> string" where
  "str_int i = (if i < 0 then CHR ''-'' # str_nat (nat (- i)) else str_nat (nat i))"

definition int_of_digits :: "string \<Rightarrow> int" where
  "int_of_digits ds = foldl (\<lambda>acc c. 10 * acc + int (code c - 48)) 0 ds"

subsection \<open>Data model\<close>

record User =
  user_id :: string
  full_name :: string
  email :: string

record LicenseEntry =
  license_type :: string
  assignment_type :: string
  index :: int
  user_id :: string
  line_number :: int
  is_active :: bool

record LicenseChange =
  user_id :: string
  user_name :: string
  action :: string
  old_license :: "string option"
  new_license :: "string option"
  line_added :: "string option"
  line_removed :: "string option"

text \<open>The fields of a \<^verbatim>\<open>PolarionLicenseManager\<close> that the engine reads and writes.\<close>

record manager =
  users :: "(string \<times> User) list"
  license_entries :: "LicenseEntry list"
  license_config_text :: string
  changes :: "LicenseChange list"

text \<open>The keys of \<^verbatim>\<open>self.license_categories\<close>, in the order the dictionary iterates.\<close>

definition license_categories :: "string list" where
  "license_categories = [''ALM'', ''QA'', ''Requirements'', ''Pro'', ''Reviewer'']"

text \<open>The assignment line \<^verbatim>\<open>f"{assignment_type.lower()}{license_type}User{index}={user_id}"\<close>,
  which add, remove, the query and the serializer all build.\<close>

definition license_line :: "string \<Rightarrow> string \<Rightarrow> int \<Rightarrow> string \<Rightarrow> string" where
  "license_line at lt i uid = lower at @ lt @ ''User'' @ str_int i @ ''='' @ uid"

subsection \<open>The per-user table\<close>

text \<open>\<^verbatim>\<open>d.get(k, [])\<close>.\<close>

definition get_list :: "(string \<times> 'a list) list \<Rightarrow> string \<Rightarrow> 'a list" where
  "get_list d k = (case map_of d k of Some v \<Rightarrow> v | None \<Rightarrow> [])"

text \<open>One step of the second loop of \<^verbatim>\<open>build_combined_user_license_table\<close>.\<close>

definition table_step ::
  "LicenseEntry \<Rightarrow> (string \<times> LicenseEntry list) list \<Rightarrow> (string \<times> LicenseEntry list) list" where
  "table_step entry user_licenses =
     (if is_active entry then
        (case map_of user_licenses (lower (LicenseEntry.user_id entry)) of
           Some es \<Rightarrow> AList.update (lower (LicenseEntry.user_id entry)) (es @ [entry]) user_licenses
         | None \<Rightarrow> AList.update (LicenseEntry.user_id entry) [entry] user_licenses)
      else user_licenses)"

definition build_combined_user_license_table ::
  "manager \<Rightarrow> (string \<times> LicenseEntry list) list" where
  "build_combined_user_license_table s =
     fold table_step (license_entries s)
       (fold (\<lambda>(k, u) d. AList.update k [] d) (users s) [])"

subsection \<open>Slot allocation, add, remove, switch\<close>

definition find_available_slot :: "manager \<Rightarrow> string \<Rightarrow> string \<Rightarrow> int" where
  "find_available_slot s lt at =
     (let existing_indices =
            map index (filter (\<lambda>entry. license_type entry = lt \<and> assignment_type entry = at
                                          \<and> is_active entry) (license_entries s))
      in if existing_indices = [] then 1 else Max (set existing_indices) + 1)"

definition add_user_license :: "manager \<Rightarrow> User \<Rightarrow> string \<Rightarrow> string \<Rightarrow> bool \<times> manager" where
  "add_user_license s user lt at =
     (let existing_licenses =
            get_list (build_combined_user_license_table s) (lower (User.user_id user))
      in if existing_licenses \<noteq> [] then (False, s)
         else
           (let new_index = find_available_slot s lt at;
                new_entry = \<lparr>license_type = lt, assignment_type = at, index = new_index,
                             user_id = User.user_id user, line_number = 0, is_active = True\<rparr>;
                change = \<lparr>user_id = User.user_id user, user_name = full_name user,
                          action = ''add'', old_license = None,
                          new_license = Some (at @ '' '' @ lt),
                          line_added = Some (license_line at lt new_index (User.user_id user)),
                          line_removed = None\<rparr>
            in (True, s\<lparr>license_entries := license_entries s @ [new_entry],
                        changes := changes s @ [change]\<rparr>)))"

text \<open>The test of the loop of \<^verbatim>\<open>remove_user_license\<close>, and the position of the first
  entry that passes it.\<close>

definition matches :: "string \<Rightarrow> string \<Rightarrow> string \<Rightarrow> LicenseEntry \<Rightarrow> bool" where
  "matches uid lt at entry =
     (lower (LicenseEntry.user_id entry) = lower uid \<and> license_type entry = lt
      \<and> assignment_type entry = at \<and> is_active entry)"

fun first_index :: "('a \<Rightarrow> bool) \<Rightarrow> 'a list \<Rightarrow> nat option" where
  "first_index P [] = None"
| "first_index P (x # xs) =
     (if P x then Some 0 else map_option Suc (first_index P xs))"

definition remove_user_license :: "manager \<Rightarrow> string \<Rightarrow> string \<Rightarrow> string \<Rightarrow> bool \<times> manager" where
  "remove_user_license s uid lt at =
     (case first_index (matches uid lt at) (license_entries s) of
        None \<Rightarrow> (False, s)
      | Some i \<Rightarrow>
          (let entry_to_remove = license_entries s ! i;
               user_name = (case map_of (users s) (lower uid) of
                              Some u \<Rightarrow> full_name u | None \<Rightarrow> uid);
               change = \<lparr>user_id = uid, user_name = user_name, action = ''remove'',
                         old_license = Some (at @ '' '' @ lt), new_license = None,
                         line_added = None,
                         line_removed = Some (license_line at lt (index entry_to_remove) uid)\<rparr>
           in (True, s\<lparr>license_entries :=
                          (license_entries s)[i := entry_to_remove\<lparr>is_active := False\<rparr>],
                       changes := changes s @ [change]\<rparr>)))"

text \<open>\<^verbatim>\<open>switch_user_license\<close>. The two assignments \<^verbatim>\<open>self.changes[-2].action\<close> and
  \<^verbatim>\<open>self.changes[-1].action\<close> raise \<^verbatim>\<open>IndexError\<close> on a log of one record.\<close>

datatype py_error = IndexError

definition mark_switch :: "LicenseChange list \<Rightarrow> py_error + LicenseChange list" where
  "mark_switch cs =
     (if cs = [] then Inr cs
      else if length cs < 2 then Inl IndexError
      else Inr (cs[length cs - 2 := (cs ! (length cs - 2))\<lparr>action := ''switch''\<rparr>,
                   length cs - 1 := (cs ! (length cs - 1))\<lparr>action := ''switch''\<rparr>]))"

definition switch_user_license ::
  "manager \<Rightarrow> User \<Rightarrow> string \<Rightarrow> string \<Rightarrow> string \<Rightarrow> string \<Rightarrow> py_error + (bool \<times> manager)" where
  "switch_user_license s user old_lt old_at new_lt new_at =
     (case remove_user_license s (User.user_id user) old_lt old_at of
        (False, s1) \<Rightarrow> Inr (False, s1)
      | (True, s1) \<Rightarrow>
          (case add_user_license s1 user new_lt new_at of
             (False, s2) \<Rightarrow> Inr (False, s2)
           | (True, s2) \<Rightarrow>
               (case mark_switch (changes s2) of
                  Inl e \<Rightarrow> Inl e
                | Inr cs \<Rightarrow> Inr (True, s2\<lparr>changes := cs\<rparr>))))"

subsection \<open>The configuration parser\<close>

text \<open>\<^verbatim>\<open>s.replace(old, new)\<close> for a non-empty \<open>old\<close>: every occurrence, from the left,
  without overlap. The source calls it with non-empty patterns only.\<close>

function replace :: "string \<Rightarrow> string \<Rightarrow> string \<Rightarrow> string" where
  "replace old new [] = []"
| "replace old new (c # s) =
     (if old \<noteq> [] \<and> startswith (c # s) old
      then new @ replace old new (drop (length old - 1) s)
      else c # replace old new s)"
  by pat_completeness auto
termination
  by (relation "measure (\<lambda>(old, new, s). length s)") auto

text \<open>
  \<^verbatim>\<open>re.match(r'(\w+User)(\d+)=(.+)', line)\<close>, with the three groups. The match starts at
  the first character. Everything the pattern reads before \<^verbatim>\<open>=\<close> is a word character
  and \<^verbatim>\<open>=\<close> is none, so \<^verbatim>\<open>=\<close> is the first character after the longest run \<open>w\<close> of
  word characters. The digits of the second group end \<open>w\<close>; before them stands the
  \<^verbatim>\<open>r\<close> of \<^verbatim>\<open>User\<close>, which is no digit, so the group is the longest run of digits at the
  end of \<open>w\<close>. Before \<^verbatim>\<open>User\<close> the pattern needs one word character at least. The
  third group takes the rest of the line up to a line feed and needs one character at
  least. So the backtracking of \<^verbatim>\<open>re\<close> has one candidate only.
\<close>

definition re_match :: "string \<Rightarrow> (string \<times> string \<times> string) option" where
  "re_match line =
     (let w = takeWhile is_word line;
          rest = dropWhile is_word line;
          index_str = rev (takeWhile is_digit (rev w));
          prefix = take (length w - length index_str) w;
          uid = takeWhile (\<lambda>c. c \<noteq> CHR 0x0A) (drop 1 rest)
      in if take 1 rest = ''='' \<and> index_str \<noteq> [] \<and> 4 < length prefix
            \<and> drop (length prefix - 4) prefix = ''User'' \<and> uid \<noteq> []
         then Some (prefix, index_str, uid) else None)"

text \<open>The first category of \<^verbatim>\<open>self.license_categories\<close> that passes a test: the loops
  \<^verbatim>\<open>for category in self.license_categories: if ...: ...; break\<close>.\<close>

definition first_category :: "(string \<Rightarrow> bool) \<Rightarrow> string option" where
  "first_category P = List.find P license_categories"

text \<open>
  The local variables of \<^verbatim>\<open>parse_license_configuration\<close> that live across the lines.
  \<^verbatim>\<open>category_part\<close> is one of them: it is assigned under a prefix that starts with
  \<^verbatim>\<open>concurrent\<close> or \<^verbatim>\<open>named\<close> and keeps its value in the later iterations, where
  \<^verbatim>\<open>'category_part' in locals()\<close> is then true.
\<close>

record parser_state =
  current_category :: "string option"
  current_assignment_type :: "string option"
  category_part :: "string option"
  entries :: "LicenseEntry list"

definition header_marker :: string where
  "header_marker = ''# ------------------------------- POLARION''"

text \<open>The body of the branch \<^verbatim>\<open>if match:\<close>, for the groups of the match.\<close>

definition parse_assignment ::
  "int \<Rightarrow> bool \<Rightarrow> string \<Rightarrow> string \<Rightarrow> string \<Rightarrow> parser_state \<Rightarrow> parser_state" where
  "parse_assignment line_num active prefix index_str uid st =
     (if strip uid = [] then st
      else
        (let (assignment_type0, part0, license_category0) =
               (if startswith (lower prefix) ''concurrent''
                then (Some ''Concurrent'', Some (drop 10 prefix), None)
                else if startswith (lower prefix) ''named''
                then (Some ''Named'', Some (drop 5 prefix), None)
                else (Some ''Concurrent'', category_part st,
                      first_category (\<lambda>category. contains (lower prefix) (lower category))));
             part1 = (if license_category0 = None
                      then map_option (replace ''User'' []) part0 else part0);
             license_category1 =
               (if license_category0 = None
                then (case part1 of
                        None \<Rightarrow> None
                      | Some p \<Rightarrow> first_category (\<lambda>category. lower category = lower p))
                else license_category0);
             license_category2 =
               (if license_category1 = None
                then first_category (\<lambda>category. contains (lower prefix) (lower category))
                else license_category1);
             license_category3 =
               (if license_category2 = None then current_category st else license_category2);
             assignment_type1 =
               (if assignment_type0 = None then current_assignment_type st
                else assignment_type0);
             st1 = st\<lparr>category_part := part1\<rparr>
         in case (license_category3, assignment_type1) of
              (Some category, Some mode) \<Rightarrow>
                st1\<lparr>entries := entries st1 @
                       [\<lparr>license_type = category, assignment_type = mode,
                         index = int_of_digits index_str, user_id = strip uid,
                         line_number = line_num, is_active = active\<rparr>]\<rparr>
            | _ \<Rightarrow> st1))"

text \<open>One iteration of the loop over the lines.\<close>

definition parse_step :: "int \<Rightarrow> string \<Rightarrow> parser_state \<Rightarrow> parser_state" where
  "parse_step line_num raw st =
     (let line = strip raw
      in if line = [] then st
         else if startswith line header_marker then
           (case first_category (\<lambda>category. contains line category) of
              Some category \<Rightarrow> st\<lparr>current_category := Some category\<rparr>
            | None \<Rightarrow> st)
         else if startswith line ''# NAMED USERS:'' then
           st\<lparr>current_assignment_type := Some ''Named''\<rparr>
         else if startswith line ''# CONCURRENT USERS:'' then
           st\<lparr>current_assignment_type := Some ''Concurrent''\<rparr>
         else if contains line ''='' then
           (let active = \<not> startswith line ''#'';
                line1 = (if active then line else strip (drop 1 line))
            in case re_match line1 of
                 Some (prefix, index_str, uid) \<Rightarrow>
                   parse_assignment line_num active prefix index_str uid st
               | None \<Rightarrow> st)
         else st)"

fun parse_lines :: "int \<Rightarrow> string list \<Rightarrow> parser_state \<Rightarrow> parser_state" where
  "parse_lines line_num [] st = st"
| "parse_lines line_num (line # lines) st =
     parse_lines (line_num + 1) lines (parse_step line_num line st)"

definition parse_entries :: "string \<Rightarrow> LicenseEntry list" where
  "parse_entries config_text =
     entries (parse_lines 1 (split_on (CHR 0x0A) config_text)
                \<lparr>current_category = None, current_assignment_type = None,
                 category_part = None, entries = []\<rparr>)"

text \<open>\<^verbatim>\<open>parse_license_configuration\<close> stores the text, replaces the entry list and
  returns \<^verbatim>\<open>True\<close>.\<close>

definition parse_license_configuration :: "manager \<Rightarrow> string \<Rightarrow> bool \<times> manager" where
  "parse_license_configuration s config_text =
     (True, s\<lparr>license_config_text := config_text,
               license_entries := parse_entries config_text\<rparr>)"

subsection \<open>The serializer\<close>

text \<open>The sort key of \<^verbatim>\<open>update_license_config_text\<close>. Python compares the tuples
  lexicographically and the strings by code point; \<^const>\<open>sort_key\<close> is stable, as
  \<^verbatim>\<open>sorted\<close> is.\<close>

definition entry_key :: "LicenseEntry \<Rightarrow> string \<times> string \<times> int" where
  "entry_key x = (license_type x, assignment_type x, index x)"

definition group_step ::
  "LicenseEntry \<Rightarrow> ((string \<times> string) \<times> LicenseEntry list) list
     \<Rightarrow> ((string \<times> string) \<times> LicenseEntry list) list" where
  "group_step entry grouped_entries =
     (let key = (license_type entry, assignment_type entry)
      in case map_of grouped_entries key of
           None \<Rightarrow> AList.update key [entry] grouped_entries
         | Some es \<Rightarrow> AList.update key (es @ [entry]) grouped_entries)"

definition grouped :: "LicenseEntry list \<Rightarrow> ((string \<times> string) \<times> LicenseEntry list) list" where
  "grouped es = fold group_step (sort_key entry_key es) []"

text \<open>The first loop over the lines: headers and other lines are kept, and under a
  category and an assignment type the lines that match the pattern after
  \<^verbatim>\<open>lstrip('#')\<close> are left out.\<close>

fun rebuild :: "string option \<Rightarrow> string option \<Rightarrow> string list \<Rightarrow> string list" where
  "rebuild cc ca [] = []"
| "rebuild cc ca (line # lines) =
     (let line_stripped = strip line
      in if startswith line_stripped header_marker then
           line # rebuild (case first_category (\<lambda>category. contains line category) of
                             Some category \<Rightarrow> Some category
                           | None \<Rightarrow> cc) ca lines
         else if startswith line_stripped ''# NAMED USERS:'' then
           line # rebuild cc (Some ''Named'') lines
         else if startswith line_stripped ''# CONCURRENT USERS:'' then
           line # rebuild cc (Some ''Concurrent'') lines
         else if cc \<noteq> None \<and> ca \<noteq> None \<and> contains line_stripped ''=''
                 \<and> re_match (dropWhile (\<lambda>c. c = CHR ''#'') line_stripped) \<noteq> None then
           rebuild cc ca lines
         else line # rebuild cc ca lines)"

text \<open>The search for the section: \<open>i\<close> is the position of the next line and \<open>start\<close>
  the value of \<^verbatim>\<open>section_start\<close>, \<open>None\<close> for \<^verbatim>\<open>-1\<close>.\<close>

fun find_section :: "string \<Rightarrow> string list \<Rightarrow> nat \<Rightarrow> nat option \<Rightarrow> nat option" where
  "find_section category [] i start = start"
| "find_section category (line # lines) i start =
     (if contains line (''POLARION '' @ category)
      then find_section category lines (Suc i) (Some i)
      else if start \<noteq> None \<and> startswith line ''# -------------------------------''
      then start
      else find_section category lines (Suc i) start)"

text \<open>The search for the subsection from \<^verbatim>\<open>section_start\<close> on; the result is
  \<^verbatim>\<open>subsection_start\<close>, the position after the subheader.\<close>

definition find_subsection :: "string \<Rightarrow> string list \<Rightarrow> nat \<Rightarrow> nat option" where
  "find_subsection at lines section_start =
     (case first_index (\<lambda>line. contains line (''# '' @ upper at @ '' USERS:''))
             (drop section_start lines) of
        None \<Rightarrow> None
      | Some i \<Rightarrow> Some (section_start + i + 1))"

definition render_entry :: "string \<Rightarrow> string \<Rightarrow> LicenseEntry \<Rightarrow> string" where
  "render_entry category at entry =
     (if is_active entry
      then license_line at category (index entry) (LicenseEntry.user_id entry)
      else ''# '' @ license_line at category (index entry) (LicenseEntry.user_id entry)
             @ '' (removed)'')"

text \<open>\<^verbatim>\<open>list.insert(k, x)\<close> for \<open>k \<ge> 0\<close>.\<close>

definition insert_at :: "nat \<Rightarrow> 'a \<Rightarrow> 'a list \<Rightarrow> 'a list" where
  "insert_at k x xs = take k xs @ x # drop k xs"

text \<open>The body of the loop over the groups.\<close>

definition insert_group ::
  "(string \<times> string) \<times> LicenseEntry list \<Rightarrow> string list \<Rightarrow> string list" where
  "insert_group g new_lines =
     (case g of ((category, at), es) \<Rightarrow>
        (case find_section category new_lines 0 None of
           None \<Rightarrow> new_lines
         | Some section_start \<Rightarrow>
             (case find_subsection at new_lines section_start of
                None \<Rightarrow> new_lines
              | Some subsection_start \<Rightarrow>
                  fst (fold (\<lambda>entry (ls, k).
                               (insert_at k (render_entry category at entry) ls, Suc k))
                         es (new_lines, subsection_start)))))"

definition serialize :: "string \<Rightarrow> LicenseEntry list \<Rightarrow> string" where
  "serialize config_text es =
     join [CHR 0x0A]
       (fold insert_group (grouped es)
          (rebuild None None (split_on (CHR 0x0A) config_text)))"

definition update_license_config_text :: "manager \<Rightarrow> string" where
  "update_license_config_text s = serialize (license_config_text s) (license_entries s)"

subsection \<open>What one line contributes to the parse\<close>

text \<open>The quadruple of an entry, and the quadruples of the active entries of a list.\<close>

definition quad :: "LicenseEntry \<Rightarrow> string \<times> string \<times> int \<times> string" where
  "quad e = (license_type e, assignment_type e, index e, LicenseEntry.user_id e)"

definition active_quads :: "LicenseEntry list \<Rightarrow> (string \<times> string \<times> int \<times> string) set" where
  "active_quads es = set (map quad (filter is_active es))"

text \<open>The tests of one iteration of the parser up to the call of the pattern: the
  active flag and the three groups of the match, when the iteration gets that far.\<close>

definition assignment_of :: "string \<Rightarrow> (bool \<times> string \<times> string \<times> string) option" where
  "assignment_of raw =
     (let line = strip raw
      in if line = [] \<or> startswith line header_marker \<or> startswith line ''# NAMED USERS:''
            \<or> startswith line ''# CONCURRENT USERS:'' \<or> \<not> contains line ''=''
         then None
         else (let active = \<not> startswith line ''#'';
                   line1 = (if active then line else strip (drop 1 line))
               in case re_match line1 of
                    Some (prefix, index_str, uid) \<Rightarrow> Some (active, prefix, index_str, uid)
                  | None \<Rightarrow> None))"

text \<open>The assignment type that the parser derives from a prefix, and the category that
  it derives from the prefix alone, before it turns to the variables that live across the
  lines.\<close>

definition prefix_mode :: "string \<Rightarrow> string" where
  "prefix_mode prefix =
     (if startswith (lower prefix) ''concurrent'' then ''Concurrent''
      else if startswith (lower prefix) ''named'' then ''Named''
      else ''Concurrent'')"

definition category_of_part :: "string \<Rightarrow> string \<Rightarrow> string option" where
  "category_of_part part prefix =
     (case first_category (\<lambda>category. lower category = lower (replace ''User'' [] part)) of
        Some category \<Rightarrow> Some category
      | None \<Rightarrow> first_category (\<lambda>category. contains (lower prefix) (lower category)))"

definition prefix_category :: "string \<Rightarrow> string option" where
  "prefix_category prefix =
     (if startswith (lower prefix) ''concurrent'' then category_of_part (drop 10 prefix) prefix
      else if startswith (lower prefix) ''named'' then category_of_part (drop 5 prefix) prefix
      else first_category (\<lambda>category. contains (lower prefix) (lower category)))"

text \<open>A line is explicit when it is no assignment line or its prefix alone gives the
  category. The entry of an explicit line, without the line number.\<close>

definition explicit_line :: "string \<Rightarrow> bool" where
  "explicit_line raw =
     (case assignment_of raw of
        None \<Rightarrow> True
      | Some (active, prefix, index_str, uid) \<Rightarrow> prefix_category prefix \<noteq> None)"

definition explicit_entry :: "string \<Rightarrow> ((string \<times> string \<times> int \<times> string) \<times> bool) option" where
  "explicit_entry raw =
     (case assignment_of raw of
        None \<Rightarrow> None
      | Some (active, prefix, index_str, uid) \<Rightarrow>
          (case prefix_category prefix of
             None \<Rightarrow> None
           | Some category \<Rightarrow>
               if strip uid = [] then None
               else Some ((category, prefix_mode prefix, int_of_digits index_str, strip uid),
                          active)))"

subsection \<open>Where the serializer finds the place of a group\<close>

definition section_marker :: "string \<Rightarrow> string" where
  "section_marker category = ''POLARION '' @ category"

definition subheader :: "string \<Rightarrow> string" where
  "subheader at = ''# '' @ upper at @ '' USERS:''"

text \<open>The lines from the last line on that contains the section marker.\<close>

fun from_last_marker :: "string \<Rightarrow> string list \<Rightarrow> string list option" where
  "from_last_marker category [] = None"
| "from_last_marker category (line # lines) =
     (case from_last_marker category lines of
        Some r \<Rightarrow> Some r
      | None \<Rightarrow> if contains line (section_marker category) then Some (line # lines) else None)"

text \<open>A category and an assignment type have a place in a list of lines when a line
  contains the section marker and, from the last such line on, a line contains the
  subheader.\<close>

definition has_place :: "string \<Rightarrow> string \<Rightarrow> string list \<Rightarrow> bool" where
  "has_place category at lines =
     (case from_last_marker category lines of
        None \<Rightarrow> False
      | Some r \<Rightarrow> list_ex (\<lambda>line. contains line (subheader at)) r)"

subsection \<open>The entries that the parser produces, and the round trip\<close>

text \<open>What holds of every entry that comes from an explicit line.\<close>

definition parsed_entry :: "LicenseEntry \<Rightarrow> bool" where
  "parsed_entry e \<longleftrightarrow>
     license_type e \<in> set license_categories
     \<and> assignment_type e \<in> {''Named'', ''Concurrent''}
     \<and> 0 \<le> index e
     \<and> LicenseEntry.user_id e \<noteq> []
     \<and> strip (LicenseEntry.user_id e) = LicenseEntry.user_id e
     \<and> CHR 0x0A \<notin> set (LicenseEntry.user_id e)"

text \<open>Parse a text, serialize the entry list as it is, and parse the output.\<close>

definition reparsed :: "manager \<Rightarrow> string \<Rightarrow> LicenseEntry list" where
  "reparsed s config_text =
     (let s1 = snd (parse_license_configuration s config_text)
      in license_entries
           (snd (parse_license_configuration s1 (update_license_config_text s1))))"

definition empty_session :: manager where
  "empty_session = \<lparr>users = [], license_entries = [], license_config_text = [], changes = []\<rparr>"

subsection \<open>Lines with their ambient category\<close>

text \<open>A line is stable when its parse does not read the left-over \<^verbatim>\<open>category_part\<close>:
  it is no assignment line, or its prefix starts with \<^verbatim>\<open>concurrent\<close> or \<^verbatim>\<open>named\<close> (the
  branches that assign \<^verbatim>\<open>category_part\<close> before they read it), or its prefix contains a
  category name.\<close>

definition stable_line :: "string \<Rightarrow> bool" where
  "stable_line raw =
     (case assignment_of raw of
        None \<Rightarrow> True
      | Some (active, prefix, index_str, uid) \<Rightarrow>
          startswith (lower prefix) ''concurrent'' \<or> startswith (lower prefix) ''named''
          \<or> first_category (\<lambda>category. contains (lower prefix) (lower category)) \<noteq> None)"

text \<open>The entry of a stable line under the ambient \<^verbatim>\<open>current_category\<close>, without the
  line number: the category of the prefix, or else the ambient one.\<close>

definition context_entry ::
  "string option \<Rightarrow> string \<Rightarrow> ((string \<times> string \<times> int \<times> string) \<times> bool) option" where
  "context_entry cc raw =
     (case assignment_of raw of
        None \<Rightarrow> None
      | Some (active, prefix, index_str, uid) \<Rightarrow>
          (case (case prefix_category prefix of
                   Some category \<Rightarrow> Some category
                 | None \<Rightarrow> cc) of
             None \<Rightarrow> None
           | Some category \<Rightarrow>
               if strip uid = [] then None
               else Some ((category, prefix_mode prefix, int_of_digits index_str, strip uid),
                          active)))"

text \<open>\<^verbatim>\<open>current_category\<close> after one line of the parser, and the lines of a text, each
  with the \<^verbatim>\<open>current_category\<close> under which the parser reads it.\<close>

definition next_category :: "string option \<Rightarrow> string \<Rightarrow> string option" where
  "next_category cc raw =
     (let line = strip raw
      in if line \<noteq> [] \<and> startswith line header_marker then
           (case first_category (\<lambda>category. contains line category) of
              Some category \<Rightarrow> Some category
            | None \<Rightarrow> cc)
         else cc)"

fun annotate :: "string option \<Rightarrow> string list \<Rightarrow> (string option \<times> string) list" where
  "annotate cc [] = []"
| "annotate cc (line # lines) = (cc, line) # annotate (next_category cc line) lines"

definition after :: "string option \<Rightarrow> string list \<Rightarrow> string option" where
  "after cc ls = fold (\<lambda>l c. next_category c l) ls cc"

definition valid_category :: "string option \<Rightarrow> bool" where
  "valid_category cc = (case cc of None \<Rightarrow> True | Some c \<Rightarrow> c \<in> set license_categories)"

text \<open>The conditions under which the round trip is proved. Every line is stable. Every
  line that yields an active entry is among the lines that the serializer keeps, under the
  same ambient category, or the category and the assignment type of its entry have a place
  among the kept lines. No line that the serializer renders contains the section marker of
  an active entry.\<close>

definition well_sectioned :: "string \<Rightarrow> bool" where
  "well_sectioned config_text =
     (let lines = split_on (CHR 0x0A) config_text;
          kept = rebuild None None lines;
          es = parse_entries config_text
      in list_all stable_line lines
         \<and> list_all (\<lambda>(cc, line).
               case context_entry cc line of
                 None \<Rightarrow> True
               | Some (q, active) \<Rightarrow>
                   \<not> active \<or> (cc, line) \<in> set (annotate None kept)
                   \<or> has_place (fst q) (fst (snd q)) kept)
             (annotate None lines)
         \<and> list_all (\<lambda>e. list_all (\<lambda>a. is_active a \<longrightarrow>
                          \<not> contains (render_entry (license_type e) (assignment_type e) e)
                               (section_marker (license_type a))) es) es)"

subsection \<open>The query\<close>

text \<open>The dictionary that \<^verbatim>\<open>query_user_licenses\<close> appends for one identifier; a key
  that a status does not set is \<open>None\<close> (\<^verbatim>\<open>message\<close> and the identifier are always
  set).\<close>

record query_result =
  result_identifier :: string
  result_user :: "User option"
  status :: string
  licenses :: "string list option"
  overall_stats :: "(string \<times> int) list option"
  queried_users_stats :: "(string \<times> int) list option"
  message :: string
  user_stats_message :: "string option"
  overall_stats_message :: "string option"

definition find_user_by_identifier :: "manager \<Rightarrow> string \<Rightarrow> User option" where
  "find_user_by_identifier s ident =
     (let i = lower (strip ident);
          us = map snd (users s)
      in case map_of (users s) i of
           Some u \<Rightarrow> Some u
         | None \<Rightarrow>
             (case List.find (\<lambda>u. lower (email u) = i) us of
                Some u \<Rightarrow> Some u
              | None \<Rightarrow>
                  (case List.find (\<lambda>u. lower (full_name u) = i) us of
                     Some u \<Rightarrow> Some u
                   | None \<Rightarrow>
                       (case filter (\<lambda>u. contains (lower (full_name u)) i
                                          \<or> contains (lower (User.user_id u)) i) us of
                          [u] \<Rightarrow> Some u
                        | _ \<Rightarrow> None))))"

text \<open>\<^verbatim>\<open>stats[key] = stats.get(key, 0) + 1\<close> with the key
  \<^verbatim>\<open>f"{entry.assignment_type}{entry.license_type}"\<close>.\<close>

definition count_entry :: "LicenseEntry \<Rightarrow> (string \<times> int) list \<Rightarrow> (string \<times> int) list" where
  "count_entry entry stats =
     (let license_key = assignment_type entry @ license_type entry
      in AList.update license_key
           ((case map_of stats license_key of Some n \<Rightarrow> n | None \<Rightarrow> 0) + 1) stats)"

definition stats_lines :: "(string \<times> int) list \<Rightarrow> string" where
  "stats_lines stats = join [CHR 0x0A] (map (\<lambda>(k, n). k @ '' - '' @ str_int n) stats)"

definition query_one ::
  "manager \<Rightarrow> (string \<times> LicenseEntry list) list \<Rightarrow> (string \<times> int) list
     \<Rightarrow> (string \<times> int) list \<Rightarrow> string \<Rightarrow> query_result" where
  "query_one s user_licenses overall queried ident =
     (case find_user_by_identifier s ident of
        None \<Rightarrow>
          \<lparr>result_identifier = ident, result_user = None, status = ''not_found'', licenses = None,
           overall_stats = None, queried_users_stats = None,
           message = ''User '' @ [CHR 0x27] @ ident @ [CHR 0x27]
                       @ '' not found in Polarion system'',
           user_stats_message = None, overall_stats_message = None\<rparr>
      | Some u \<Rightarrow>
          (let user_entries = get_list user_licenses (lower (User.user_id u));
               user_license_info =
                 map (\<lambda>entry. license_line (assignment_type entry) (license_type entry)
                                  (index entry) (LicenseEntry.user_id entry))
                   (filter is_active user_entries)
           in if user_entries = [] then
                \<lparr>result_identifier = ident, result_user = Some u, status = ''no_license'',
                 licenses = None, overall_stats = None, queried_users_stats = None,
                 message = full_name u @ '' - '' @ email u @ '' - No license assigned'',
                 user_stats_message = None, overall_stats_message = None\<rparr>
              else if user_license_info \<noteq> [] then
                \<lparr>result_identifier = ident, result_user = Some u, status = ''has_license'',
                 licenses = Some user_license_info, overall_stats = Some overall,
                 queried_users_stats = Some queried,
                 message = full_name u @ '' - '' @ email u @ '' - ''
                             @ join '', '' user_license_info,
                 user_stats_message = Some (stats_lines queried),
                 overall_stats_message = Some (stats_lines overall)\<rparr>
              else
                \<lparr>result_identifier = ident, result_user = Some u, status = ''no_active_license'',
                 licenses = None, overall_stats = None, queried_users_stats = None,
                 message = full_name u @ '' - '' @ email u
                             @ '' - No active license assigned'',
                 user_stats_message = None, overall_stats_message = None\<rparr>))"

definition query_user_licenses :: "manager \<Rightarrow> string list \<Rightarrow> query_result list" where
  "query_user_licenses s identifiers =
     (let user_licenses = build_combined_user_license_table s;
          overall = fold count_entry (filter is_active (license_entries s)) [];
          queried =
            fold (\<lambda>ident stats.
                    case find_user_by_identifier s ident of
                      None \<Rightarrow> stats
                    | Some u \<Rightarrow>
                        fold count_entry
                          (filter is_active (get_list user_licenses (lower (User.user_id u))))
                          stats)
              identifiers []
      in map (query_one s user_licenses overall queried) identifiers)"

subsection \<open>The classification of mixed identifiers\<close>

text \<open>\<^verbatim>\<open>s.split()\<close>: the runs of characters that are not white space.\<close>

fun split_ws_aux :: "string \<Rightarrow> string \<Rightarrow> string list" where
  "split_ws_aux acc [] = (if acc = [] then [] else [rev acc])"
| "split_ws_aux acc (c # s) =
     (if is_space c then (if acc = [] then split_ws_aux [] s else rev acc # split_ws_aux [] s)
      else split_ws_aux (c # acc) s)"

definition split_ws :: "string \<Rightarrow> string list" where
  "split_ws s = split_ws_aux [] s"

text \<open>\<^verbatim>\<open>s.isalnum()\<close>.\<close>

definition isalnum :: "string \<Rightarrow> bool" where
  "isalnum s = (s \<noteq> [] \<and> list_all is_alnum s)"

record categorized =
  user_ids :: "string list"
  full_names :: "string list"
  emails :: "string list"

text \<open>The list \<^verbatim>\<open>identifiers\<close>: the stripped, non-empty pieces between commas and
  semicolons.\<close>

definition identifiers_of :: "string \<Rightarrow> string list" where
  "identifiers_of input_text =
     map strip (filter (\<lambda>i. strip i \<noteq> [])
                  (split_on (CHR '','') (replace '';'' '','' input_text)))"

definition is_email_like :: "string \<Rightarrow> bool" where
  "is_email_like i = (contains i ''@'' \<and> contains i ''.'')"

text \<open>The last test of the chain, for a user id.\<close>

definition is_user_id_like :: "string \<Rightarrow> bool" where
  "is_user_id_like i =
     (\<not> contains i '' ''
      \<and> isalnum (replace ''-'' [] (replace ''_'' [] (replace ''.'' [] i))))"

definition classify :: "string \<Rightarrow> categorized \<Rightarrow> categorized" where
  "classify i acc =
     (if contains i '' '' \<and> contains i ''@'' then
        (let parts = split_ws i;
             potential_emails = filter is_email_like parts;
             potential_names = filter (\<lambda>part. \<not> contains part ''@'') parts
         in if potential_emails \<noteq> [] \<and> potential_names \<noteq> [] then
              (let acc1 = acc\<lparr>emails := emails acc @ potential_emails\<rparr>;
                   name = join '' '' potential_names
               in if strip name \<noteq> [] then acc1\<lparr>full_names := full_names acc1 @ [strip name]\<rparr>
                  else acc1)
            else if is_email_like i then acc\<lparr>emails := emails acc @ [i]\<rparr>
            else acc\<lparr>full_names := full_names acc @ [i]\<rparr>)
      else if is_email_like i then acc\<lparr>emails := emails acc @ [i]\<rparr>
      else if is_user_id_like i then acc\<lparr>user_ids := user_ids acc @ [i]\<rparr>
      else acc\<lparr>full_names := full_names acc @ [i]\<rparr>)"

definition parse_mixed_identifiers :: "string \<Rightarrow> categorized" where
  "parse_mixed_identifiers input_text =
     fold classify (identifiers_of input_text)
       \<lparr>user_ids = [], full_names = [], emails = []\<rparr>"

subsection \<open>The invariant behind the overwriting of stale entries\<close>

text \<open>While the table is built, the lower-case form of \<open>uid\<close> is not a key, and an entry
  whose user id is \<open>uid\<close> sits only in the list keyed \<open>uid\<close>.\<close>

definition stale_inv :: "string \<Rightarrow> (string \<times> LicenseEntry list) list \<Rightarrow> bool" where
  "stale_inv uid d \<longleftrightarrow>
     lower uid \<notin> fst ` set d
     \<and> (\<forall>(k, l)\<in>set d. \<forall>e\<in>set l. LicenseEntry.user_id e = uid \<longrightarrow> k = uid)"

subsection \<open>Concrete sessions\<close>

text \<open>A directory of three users, and a Named/ALM partition with the active indices
  1, 2 and 4.\<close>

definition user_d :: User where
  "user_d = \<lparr>User.user_id = ''dins'', full_name = ''Dina S'', email = ''dins@co.com''\<rparr>"

definition user_e :: User where
  "user_e = \<lparr>User.user_id = ''eyal'', full_name = ''Eyal T'', email = ''eyal@co.com''\<rparr>"

definition user_b :: User where
  "user_b = \<lparr>User.user_id = ''bshrager'', full_name = ''Bob Shrager'',
             email = ''bob.shrager@co.com''\<rparr>"

definition directory :: "(string \<times> User) list" where
  "directory = [(''dins'', user_d), (''eyal'', user_e), (''bshrager'', user_b)]"

definition named_alm :: "int \<Rightarrow> string \<Rightarrow> bool \<Rightarrow> LicenseEntry" where
  "named_alm i uid a = \<lparr>license_type = ''ALM'', assignment_type = ''Named'', index = i,
                         user_id = uid, line_number = i, is_active = a\<rparr>"

definition slots_124 :: manager where
  "slots_124 = \<lparr>users = directory,
                 license_entries = [named_alm 1 ''u1'' True, named_alm 2 ''u2'' True,
                                    named_alm 4 ''u4'' True],
                 license_config_text = [], changes = []\<rparr>"

text \<open>The same partition after \<^verbatim>\<open>add(dins)\<close>, after \<^verbatim>\<open>remove(dins)\<close>, and after
  \<^verbatim>\<open>add(eyal)\<close>.\<close>

definition slots_added :: manager where
  "slots_added = snd (add_user_license slots_124 user_d ''ALM'' ''Named'')"

definition slots_removed :: manager where
  "slots_removed = snd (remove_user_license slots_added ''dins'' ''ALM'' ''Named'')"

definition slots_readded :: manager where
  "slots_readded = snd (add_user_license slots_removed user_e ''ALM'' ''Named'')"

text \<open>A partition with a removed entry below the largest active index.\<close>

definition slots_gap :: manager where
  "slots_gap = \<lparr>users = directory,
                 license_entries = [named_alm 1 ''u1'' True, named_alm 2 ''u2'' True,
                                    named_alm 3 ''u3'' False, named_alm 4 ''u4'' True],
                 license_config_text = [], changes = []\<rparr>"

definition slots_gap_added :: manager where
  "slots_gap_added = snd (add_user_license slots_gap user_d ''ALM'' ''Named'')"

text \<open>An empty directory and one active entry of user \<^verbatim>\<open>Bob\<close>, who is then added again.\<close>

definition user_Bob :: User where
  "user_Bob = \<lparr>User.user_id = ''Bob'', full_name = ''Bob'', email = ''bob@co.com''\<rparr>"

definition stale_Bob :: manager where
  "stale_Bob = \<lparr>users = [], license_entries = [named_alm 1 ''Bob'' True],
                 license_config_text = [], changes = []\<rparr>"

text \<open>A directory user with one active Named/ALM entry.\<close>

definition one_named_alm :: manager where
  "one_named_alm = \<lparr>users = directory,
                     license_entries = [named_alm 1 ''u1'' True, named_alm 2 ''bshrager'' True],
                     license_config_text = [], changes = []\<rparr>"

text \<open>Two active entries of a user outside the directory, with the user id in lower case
  and in mixed case.\<close>

definition stale_twice_lower :: manager where
  "stale_twice_lower = \<lparr>users = [],
                         license_entries = [named_alm 1 ''bob'' True, named_alm 2 ''bob'' True],
                         license_config_text = [], changes = []\<rparr>"

definition stale_twice_mixed :: manager where
  "stale_twice_mixed = \<lparr>users = [],
                         license_entries = [named_alm 1 ''Bob'' True, named_alm 2 ''Bob'' True],
                         license_config_text = [], changes = []\<rparr>"

text \<open>A subheader for named users followed by an assignment line whose prefix names
  no assignment type.\<close>

definition named_section_text :: string where
  "named_section_text = join [CHR 0x0A] [''# NAMED USERS:'', ''ALMUser1=bob'']"

text \<open>An assignment line for ALM in the section of QA.\<close>

definition alm_in_qa_text :: string where
  "alm_in_qa_text = join [CHR 0x0A]
     [''# ------------------------------- POLARION QA -------------------------------'',
      ''# NAMED USERS:'',
      ''namedALMUser1=bob'']"

text \<open>A configuration with one assignment line, and the session that has parsed it.\<close>

definition bshrager_text :: string where
  "bshrager_text = join [CHR 0x0A]
     [''# ------------------------------- POLARION ALM -------------------------------'',
      ''# NAMED USERS:'',
      ''namedALMUser1=bshrager'',
      ''# CONCURRENT USERS:'']"

definition bshrager_session :: manager where
  "bshrager_session =
     snd (parse_license_configuration
            \<lparr>users = directory, license_entries = [], license_config_text = [],
             changes = []\<rparr> bshrager_text)"

text \<open>A line without a category in its prefix after a line of another category; both
  stand before any header, and a user id contains the text of a subheader.\<close>

definition stale_part_text :: string where
  "stale_part_text = join [CHR 0x0A]
     [''zz POLARION ALM'',
      ''concurrentQAUser1=eve # NAMED USERS:'',
      ''fooUser2=al'',
      ''namedALMUser1=bob'']"

text \<open>A user id that contains a section marker.\<close>

definition marker_in_user_id_text :: string where
  "marker_in_user_id_text = join [CHR 0x0A]
     [''# ------------------------------- POLARION ALM -------------------------------'',
      ''# NAMED USERS:'',
      ''# CONCURRENT USERS:'',
      ''concurrentALMUser1=x POLARION ALM'',
      ''namedALMUser1=bob'']"

text \<open>An assignment line before any header, and one that takes its category from the
  section.\<close>

definition context_text :: string where
  "context_text = join [CHR 0x0A]
     [''namedALMUser3=eve'',
      ''# ------------------------------- POLARION ALM -------------------------------'',
      ''# NAMED USERS:'',
      ''namedUser1=bob'',
      ''# CONCURRENT USERS:'']"

text \<open>One assignment line and no header.\<close>

definition headerless_text :: string where
  "headerless_text = ''namedALMUser1=bob''"

text \<open>An empty directory and one active entry of user \<^verbatim>\<open>bob\<close>, in lower case.\<close>

definition user_bob :: User where
  "user_bob = \<lparr>User.user_id = ''bob'', full_name = ''Bob'', email = ''bob@co.com''\<rparr>"

definition stale_bob :: manager where
  "stale_bob = \<lparr>users = [], license_entries = [named_alm 1 ''bob'' True],
                 license_config_text = [], changes = []\<rparr>"

section \<open>Basic facts\<close>

subsection \<open>Lower case and positions\<close>


lemma code_inj: "code c = code d \<Longrightarrow> c = d"
  by (simp add: code_def)

lemma code_lower_char: "code (lower_char c) = (if (65 \<le> code c \<and> code c \<le> 90) \<or> (192 \<le> code c \<and> code c \<le> 222 \<and> code c \<noteq> 215) then code c + 32 else code c)"
  by (auto simp: lower_char_def code_def)

lemma lower_char_idem: "lower_char (lower_char c) = lower_char c"
  by (rule code_inj) (simp add: code_lower_char)

lemma lower_idem: "lower (lower s) = lower s"
  by (simp add: lower_def lower_char_idem)

lemma first_index_None: "first_index P xs = None \<longleftrightarrow> (\<forall>x\<in>set xs. \<not> P x)"
  by (induction xs) auto

lemma first_index_Some:
  "first_index P xs = Some i \<Longrightarrow> i < length xs \<and> P (xs ! i) \<and> (\<forall>j<i. \<not> P (xs ! j))"
proof (induction xs arbitrary: i)
  case Nil
  then show ?case by simp
next
  case (Cons x xs)
  show ?case
  proof (cases "P x")
    case True
    with Cons.prems show ?thesis by simp
  next
    case False
    with Cons.prems obtain k where k: "first_index P xs = Some k" "i = Suc k"
      by auto
    from Cons.IH [OF k(1)] False k(2) show ?thesis
      by (auto simp: nth_Cons split: nat.splits)
  qed
qed

subsection \<open>Facts about the per-user table\<close>

lemma map_of_table_step_other:
  assumes "lower k = k" and "map_of d k = Some l"
  shows "map_of (table_step e d) k =
         Some (if is_active e \<and> lower (LicenseEntry.user_id e) = k then l @ [e] else l)"
proof (cases "is_active e")
  case False
  then show ?thesis using assms by (simp add: table_step_def)
next
  case True
  show ?thesis
  proof (cases "map_of d (lower (LicenseEntry.user_id e))")
    case None
    have "LicenseEntry.user_id e \<noteq> k"
      using None assms by auto
    moreover have "lower (LicenseEntry.user_id e) \<noteq> k"
      using None assms by auto
    ultimately show ?thesis
      using True None assms by (simp add: table_step_def update_conv')
  next
    case (Some es)
    then show ?thesis
      using True assms by (auto simp: table_step_def update_conv')
  qed
qed

lemma map_of_fold_table_step:
  assumes "lower k = k" and "map_of d k = Some l"
  shows "map_of (fold table_step es d) k =
         Some (l @ filter (\<lambda>e. is_active e \<and> lower (LicenseEntry.user_id e) = k) es)"
  using assms(2)
proof (induction es arbitrary: d l)
  case Nil
  then show ?case by simp
next
  case (Cons e es)
  from map_of_table_step_other [OF assms(1) Cons.prems, of e]
  have "map_of (table_step e d) k =
        Some (if is_active e \<and> lower (LicenseEntry.user_id e) = k then l @ [e] else l)" .
  from Cons.IH [OF this] show ?case by simp
qed

lemma map_of_init_table:
  "map_of (fold (\<lambda>(k, u) d. AList.update k [] d) us d0) k =
     (if k \<in> fst ` set us then Some [] else map_of d0 k)"
  by (induction us arbitrary: d0) (auto simp: update_conv' split: prod.splits)

lemma table_directory_user:
  assumes "lower k = k" and "k \<in> fst ` set (users s)"
  shows "get_list (build_combined_user_license_table s) k =
         filter (\<lambda>e. is_active e \<and> lower (LicenseEntry.user_id e) = k) (license_entries s)"
proof -
  have "map_of (fold (\<lambda>(k, u) d. AList.update k [] d) (users s) []) k = Some []"
    using assms(2) by (simp add: map_of_init_table)
  from map_of_fold_table_step [OF assms(1) this]
  show ?thesis
    by (simp add: build_combined_user_license_table_def get_list_def)
qed

subsection \<open>Facts about add and the slot allocation\<close>

lemma add_user_license_True:
  assumes "add_user_license s user lt at = (True, s')"
  shows "get_list (build_combined_user_license_table s) (lower (User.user_id user)) = []"
    and "license_entries s' = license_entries s @
           [\<lparr>license_type = lt, assignment_type = at, index = find_available_slot s lt at,
             user_id = User.user_id user, line_number = 0, is_active = True\<rparr>]"
    and "users s' = users s"
    and "\<exists>c. changes s' = changes s @ [c]"
proof -
  show e: "get_list (build_combined_user_license_table s) (lower (User.user_id user)) = []"
    using assms unfolding add_user_license_def by (simp split: if_splits)
  have s': "s' = snd (add_user_license s user lt at)" using assms by simp
  show "license_entries s' = license_entries s @
           [\<lparr>license_type = lt, assignment_type = at, index = find_available_slot s lt at,
             user_id = User.user_id user, line_number = 0, is_active = True\<rparr>]"
    unfolding s' add_user_license_def using e by (simp add: Let_def)
  show "users s' = users s"
    unfolding s' add_user_license_def using e by (simp add: Let_def)
  show "\<exists>c. changes s' = changes s @ [c]"
    unfolding s' add_user_license_def using e by (simp add: Let_def)
qed

lemma find_available_slot_eq:
  "find_available_slot s lt at =
     (if \<forall>x\<in>set (license_entries s).
           \<not> (license_type x = lt \<and> assignment_type x = at \<and> is_active x)
      then 1
      else Max {index x |x. x \<in> set (license_entries s) \<and> license_type x = lt
                         \<and> assignment_type x = at \<and> is_active x} + 1)"
proof -
  let ?P = "\<lambda>x. license_type x = lt \<and> assignment_type x = at \<and> is_active x"
  have set_eq: "set (map index (filter ?P (license_entries s)))
                = {index x |x. x \<in> set (license_entries s) \<and> ?P x}"
    by auto
  have empty_iff: "map index (filter ?P (license_entries s)) = []
                   \<longleftrightarrow> (\<forall>x\<in>set (license_entries s). \<not> ?P x)"
    by (simp add: filter_empty_conv)
  show ?thesis
    unfolding find_available_slot_def Let_def empty_iff set_eq by (rule refl)
qed

subsection \<open>Facts about remove\<close>


lemma remove_user_license_Some:
  assumes "first_index (matches uid lt at) (license_entries s) = Some k"
  shows "fst (remove_user_license s uid lt at)"
    and "license_entries (snd (remove_user_license s uid lt at)) =
           (license_entries s)[k := (license_entries s ! k)\<lparr>is_active := False\<rparr>]"
    and "users (snd (remove_user_license s uid lt at)) = users s"
    and "license_config_text (snd (remove_user_license s uid lt at)) = license_config_text s"
    and "changes (snd (remove_user_license s uid lt at)) = changes s @
           [\<lparr>user_id = uid,
             user_name = (case map_of (users s) (lower uid) of
                            Some u \<Rightarrow> full_name u | None \<Rightarrow> uid),
             action = ''remove'', old_license = Some (at @ '' '' @ lt), new_license = None,
             line_added = None,
             line_removed = Some (license_line at lt (index (license_entries s ! k)) uid)\<rparr>]"
  using assms by (simp_all add: remove_user_license_def Let_def)

lemma add_user_license_False:
  assumes "get_list (build_combined_user_license_table s) (lower (User.user_id user)) \<noteq> []"
  shows "add_user_license s user lt at = (False, s)"
  using assms by (simp add: add_user_license_def)

subsection \<open>Lists with one element that passes a test\<close>

lemma filter_single_position:
  assumes "filter P xs = [x]" and "i < length xs" and "j < length xs"
    and "P (xs ! i)" and "P (xs ! j)"
  shows "i = j"
proof -
  have "card {n. n < length xs \<and> P (xs ! n)} = 1"
    using assms(1) length_filter_conv_card [of P xs] by simp
  then obtain n where "{n. n < length xs \<and> P (xs ! n)} = {n}"
    by (auto simp: card_1_singleton_iff)
  moreover have "i \<in> {n. n < length xs \<and> P (xs ! n)}" "j \<in> {n. n < length xs \<and> P (xs ! n)}"
    using assms by auto
  ultimately show ?thesis by auto
qed

lemma filter_single_update:
  assumes "filter P xs = [x]" and "k < length xs" and "P (xs ! k)" and "\<not> P y"
  shows "filter P (xs[k := y]) = []"
proof -
  have "\<not> P z" if "z \<in> set (xs[k := y])" for z
  proof -
    from that obtain j where j: "j < length xs" "z = xs[k := y] ! j"
      by (auto simp: in_set_conv_nth)
    show ?thesis
    proof (cases "j = k")
      case True
      then show ?thesis using j assms(2,4) by simp
    next
      case False
      then have "z = xs ! j" using j by simp
      moreover have "\<not> P (xs ! j)"
        using filter_single_position [OF assms(1) j(1) assms(2) _ assms(3)] False by blast
      ultimately show ?thesis by simp
    qed
  qed
  then show ?thesis by (simp add: filter_empty_conv)
qed

lemma filter_single_mem:
  assumes "filter P xs = [x]" and "y \<in> set xs" and "P y"
  shows "y = x"
proof -
  have "y \<in> set (filter P xs)" using assms(2,3) by simp
  then show ?thesis using assms(1) by simp
qed

lemma add_user_license_empty:
  assumes "get_list (build_combined_user_license_table s) (lower (User.user_id user)) = []"
  shows "fst (add_user_license s user lt at)"
    and "license_entries (snd (add_user_license s user lt at)) = license_entries s @
           [\<lparr>license_type = lt, assignment_type = at, index = find_available_slot s lt at,
             user_id = User.user_id user, line_number = 0, is_active = True\<rparr>]"
    and "\<exists>c. changes (snd (add_user_license s user lt at)) = changes s @ [c]"
  using assms by (simp_all add: add_user_license_def Let_def)

lemma mark_switch_two:
  "\<exists>cs'. mark_switch (cs @ [c1, c2]) = Inr cs'"
  by (simp add: mark_switch_def)

subsection \<open>Keys and stale entries of the table\<close>

lemma set_update_subset:
  "p \<in> set (AList.update k v d) \<Longrightarrow> p = (k, v) \<or> p \<in> set d"
  by (induction d) (auto split: if_splits)

lemma distinct_init_table:
  "distinct (map fst d0) \<Longrightarrow>
   distinct (map fst (fold (\<lambda>(k, u) d. AList.update k ([] :: LicenseEntry list) d) us d0))"
  by (induction us arbitrary: d0) (auto simp: distinct_update split: prod.splits)

lemma distinct_table_step:
  "distinct (map fst d) \<Longrightarrow> distinct (map fst (table_step e d))"
  by (auto simp: table_step_def distinct_update split: option.splits)

lemma distinct_fold_table_step:
  "distinct (map fst d) \<Longrightarrow> distinct (map fst (fold table_step es d))"
  by (induction es arbitrary: d) (auto simp: distinct_table_step)

lemma distinct_table_keys:
  "distinct (map fst (build_combined_user_license_table s))"
  unfolding build_combined_user_license_table_def
  by (intro distinct_fold_table_step distinct_init_table) simp


lemma stale_inv_step:
  assumes inv: "stale_inv uid d"
    and e: "is_active e \<longrightarrow> LicenseEntry.user_id e \<noteq> lower uid"
  shows "stale_inv uid (table_step e d)"
    and "map_of (table_step e d) uid =
           (if is_active e \<and> LicenseEntry.user_id e = uid then Some [e] else map_of d uid)"
proof -
  let ?k = "lower (LicenseEntry.user_id e)"
  have nokey: "lower uid \<notin> fst ` set d"
    and lists: "\<And>k l x. (k, l) \<in> set d \<Longrightarrow> x \<in> set l \<Longrightarrow> LicenseEntry.user_id x = uid \<Longrightarrow> k = uid"
    using inv by (auto simp: stale_inv_def)
  have nomap: "map_of d (lower uid) = None"
    using nokey by (simp add: map_of_eq_None_iff)
  show "stale_inv uid (table_step e d)"
  proof (cases "is_active e")
    case False
    then show ?thesis using inv by (simp add: table_step_def)
  next
    case True
    show ?thesis
    proof (cases "map_of d ?k")
      case None
      have step: "table_step e d = AList.update (LicenseEntry.user_id e) [e] d"
        using True None by (simp add: table_step_def)
      have "lower uid \<notin> fst ` set (table_step e d)"
        unfolding step dom_update using nokey e True by auto
      moreover have "k = uid"
        if "(k, l) \<in> set (table_step e d)" "x \<in> set l" "LicenseEntry.user_id x = uid" for k l x
        using set_update_subset [OF that(1) [unfolded step]] that(2,3) lists by auto
      ultimately show ?thesis unfolding stale_inv_def by blast
    next
      case (Some es)
      have step: "table_step e d = AList.update ?k (es @ [e]) d"
        using True Some by (simp add: table_step_def)
      have in_d: "(?k, es) \<in> set d" using Some by (rule map_of_SomeD)
      have ne: "LicenseEntry.user_id e \<noteq> uid"
        using Some nomap by auto
      have "lower uid \<notin> fst ` set (table_step e d)"
        unfolding step dom_update using nokey in_d by force
      moreover have "k = uid"
        if "(k, l) \<in> set (table_step e d)" "x \<in> set l" "LicenseEntry.user_id x = uid" for k l x
        using set_update_subset [OF that(1) [unfolded step]] that(2,3) lists in_d ne by auto
      ultimately show ?thesis unfolding stale_inv_def by blast
    qed
  qed
  show "map_of (table_step e d) uid =
           (if is_active e \<and> LicenseEntry.user_id e = uid then Some [e] else map_of d uid)"
  proof (cases "is_active e")
    case False
    then show ?thesis by (simp add: table_step_def)
  next
    case True
    show ?thesis
    proof (cases "map_of d ?k")
      case None
      then show ?thesis using True by (simp add: table_step_def update_conv')
    next
      case (Some es)
      have ne: "LicenseEntry.user_id e \<noteq> uid"
        using Some nomap by auto
      have "?k \<noteq> uid"
      proof
        assume "?k = uid"
        then have "lower uid = ?k" using lower_idem [of "LicenseEntry.user_id e"] by simp
        then show False using Some nomap by simp
      qed
      then show ?thesis using True Some ne by (simp add: table_step_def update_conv')
    qed
  qed
qed

lemma stale_inv_fold:
  assumes "stale_inv uid d"
    and "\<forall>e\<in>set es. is_active e \<longrightarrow> LicenseEntry.user_id e \<noteq> lower uid"
  shows "stale_inv uid (fold table_step es d)
       \<and> map_of (fold table_step es d) uid =
           (if filter (\<lambda>e. is_active e \<and> LicenseEntry.user_id e = uid) es = []
            then map_of d uid
            else Some [last (filter (\<lambda>e. is_active e \<and> LicenseEntry.user_id e = uid) es)])"
  using assms
proof (induction es arbitrary: d)
  case Nil
  then show ?case by simp
next
  case (Cons e es)
  have e: "is_active e \<longrightarrow> LicenseEntry.user_id e \<noteq> lower uid"
    using Cons.prems(2) by simp
  note st = stale_inv_step [OF Cons.prems(1) e]
  have rest: "\<forall>e\<in>set es. is_active e \<longrightarrow> LicenseEntry.user_id e \<noteq> lower uid"
    using Cons.prems(2) by simp
  from Cons.IH [OF st(1) rest] st(2) show ?case by simp
qed

lemma stale_inv_init:
  assumes "lower uid \<notin> fst ` set us"
  shows "stale_inv uid (fold (\<lambda>(k, u) d. AList.update k ([] :: LicenseEntry list) d) us [])"
proof -
  have "lower uid \<notin> fst ` set d0 \<Longrightarrow> (\<forall>(k, l)\<in>set d0. l = []) \<Longrightarrow> lower uid \<notin> fst ` set us \<Longrightarrow>
        lower uid \<notin> fst ` set (fold (\<lambda>(k, u) d. AList.update k ([] :: LicenseEntry list) d) us d0)
        \<and> (\<forall>(k, l)\<in>set (fold (\<lambda>(k, u) d. AList.update k ([] :: LicenseEntry list) d) us d0). l = [])"
    for d0 :: "(string \<times> LicenseEntry list) list"
  proof (induction us arbitrary: d0)
    case Nil
    then show ?case by simp
  next
    case (Cons a us)
    obtain k u where a: "a = (k, u)" by (cases a)
    have 1: "lower uid \<notin> fst ` set (AList.update k [] d0)"
      unfolding dom_update using Cons.prems a by auto
    have 2: "\<forall>(k, l)\<in>set (AList.update k [] d0). l = []"
      using Cons.prems(2) set_update_subset [of _ k "[]" d0] by fastforce
    have 3: "lower uid \<notin> fst ` set us" using Cons.prems(3) by simp
    from Cons.IH [OF 1 2 3] show ?case by (simp add: a)
  qed
  from this [of "[]"] assms show ?thesis
    unfolding stale_inv_def by fastforce
qed

lemma active_indices_set:
  "{index x |x. x \<in> set xs \<and> P x} = set (map index (filter P xs))"
  by auto

subsection \<open>Facts about the query and the classification\<close>

lemma query_one_status:
  "status (query_one s t ov q i) \<in>
     {''not_found'', ''no_license'', ''has_license'', ''no_active_license''}"
  by (simp add: query_one_def Let_def split: option.splits)

lemma lower_bshrager: "lower (strip ''bshrager'') = ''bshrager''" "lower ''bshrager'' = ''bshrager''"
  by code_simp+

lemma line_bshrager: "license_line ''Named'' ''ALM'' 1 ''bshrager'' = ''namedALMUser1=bshrager''"
  by code_simp

lemma user_ids_classify:
  "user_ids (classify i acc) =
     user_ids acc @ (if \<not> (contains i '' '' \<and> contains i ''@'') \<and> \<not> is_email_like i
                        \<and> is_user_id_like i then [i] else [])"
  by (simp add: classify_def Let_def)

lemma user_ids_fold_classify:
  "user_ids (fold classify is acc) =
     user_ids acc @ filter (\<lambda>i. \<not> (contains i '' '' \<and> contains i ''@'') \<and> \<not> is_email_like i
                        \<and> is_user_id_like i) is"
  by (induction "is" arbitrary: acc) (simp_all add: user_ids_classify)

subsection \<open>The steps of the parser\<close>

lemma parse_step_split:
  "parse_step n raw st =
     (case assignment_of raw of
        Some (a, p, ds, u) \<Rightarrow> parse_assignment n a p ds u st
      | None \<Rightarrow> parse_step n raw st)"
  by (auto simp: parse_step_def assignment_of_def Let_def split: option.splits)

lemma parse_step_no_assignment:
  "assignment_of raw = None \<Longrightarrow> entries (parse_step n raw st) = entries st"
  by (auto simp: parse_step_def assignment_of_def Let_def split: option.splits if_splits)

lemma active_quads_append:
  "active_quads (xs @ ys) = active_quads xs \<union> active_quads ys"
  by (simp add: active_quads_def)

subsection \<open>Strings\<close>

subsubsection \<open>strip\<close>

lemma dropWhile_hd: "s \<noteq> [] \<Longrightarrow> \<not> P (hd s) \<Longrightarrow> dropWhile P s = s"
  by (cases s) simp_all

lemma strip_fixed:
  assumes "s \<noteq> []" "\<not> is_space (hd s)" "\<not> is_space (last s)"
  shows "strip s = s"
proof -
  have 1: "dropWhile is_space s = s" using assms(1,2) by (rule dropWhile_hd)
  have "hd (rev s) = last s" using assms(1) by (simp add: hd_rev)
  then have 2: "dropWhile is_space (rev s) = rev s"
    using assms(1,3) by (intro dropWhile_hd) simp_all
  show ?thesis by (simp add: strip_def 1 2)
qed

lemma strip_ends:
  assumes "strip s \<noteq> []"
  shows "\<not> is_space (hd (strip s))" and "\<not> is_space (last (strip s))"
proof -
  let ?d = "dropWhile is_space s"
  let ?e = "dropWhile is_space (rev ?d)"
  have e: "?e \<noteq> []" using assms by (simp add: strip_def)
  have d: "?d \<noteq> []"
  proof
    assume "?d = []"
    then have "?e = dropWhile is_space (rev [])"
      by (rule arg_cong [where f = "\<lambda>x. dropWhile is_space (rev x)"])
    with e show False by simp
  qed
  have "last (strip s) = hd ?e" using e by (simp add: strip_def last_rev)
  then show "\<not> is_space (last (strip s))" using e hd_dropWhile [of is_space "rev ?d"] by simp
  obtain xs where xs: "rev ?d = xs @ ?e"
    by (metis takeWhile_dropWhile_id)
  have "hd (strip s) = last ?e" using e by (simp add: strip_def hd_rev)
  also have "\<dots> = last (rev ?d)" using e xs by (metis last_appendR)
  also have "\<dots> = hd ?d" using d by (simp add: last_rev)
  finally show "\<not> is_space (hd (strip s))" using d hd_dropWhile [of is_space s] by simp
qed

lemma strip_idem: "strip (strip s) = strip s"
proof (cases "strip s = []")
  case True
  have "strip [] = []" by (simp add: strip_def)
  then show ?thesis using True by simp
next
  case False
  then show ?thesis using strip_ends [OF False] by (intro strip_fixed)
qed

lemma set_strip: "set (strip s) \<subseteq> set s"
proof -
  have "set (strip s) = set (dropWhile is_space (rev (dropWhile is_space s)))"
    by (simp add: strip_def)
  also have "\<dots> \<subseteq> set (rev (dropWhile is_space s))" by (auto dest: set_dropWhileD)
  also have "\<dots> \<subseteq> set s" by (auto dest: set_dropWhileD)
  finally show ?thesis .
qed

subsubsection \<open>split and join\<close>

lemma split_on_nonempty: "split_on c s \<noteq> []"
  by (induction s) (auto split: list.splits)

lemma split_on_no_sep: "l \<in> set (split_on c s) \<Longrightarrow> c \<notin> set l"
proof (induction s arbitrary: l)
  case Nil
  then show ?case by simp
next
  case (Cons a s)
  show ?case
  proof (cases "a = c")
    case True
    then show ?thesis using Cons by auto
  next
    case False
    obtain w ws where w: "split_on c s = w # ws"
      using split_on_nonempty [of c s] by (cases "split_on c s") auto
    then have "l = a # w \<or> l \<in> set ws" using Cons.prems False by simp
    then show ?thesis using Cons.IH w False by auto
  qed
qed

lemma split_on_single: "c \<notin> set x \<Longrightarrow> split_on c x = [x]"
  by (induction x) auto

lemma split_on_append: "c \<notin> set x \<Longrightarrow> split_on c (x @ c # s) = x # split_on c s"
  by (induction x) auto

lemma split_join:
  assumes "\<forall>l\<in>set ls. c \<notin> set l" "ls \<noteq> []"
  shows "split_on c (join [c] ls) = ls"
  using assms
proof (induction ls)
  case Nil
  then show ?case by simp
next
  case (Cons x xs)
  show ?case
  proof (cases xs)
    case Nil
    then show ?thesis using Cons.prems by (simp add: split_on_single)
  next
    case (Cons y ys)
    have "split_on c (join [c] xs) = xs"
      using Cons.IH Cons.prems Cons by simp
    moreover have "join [c] (x # xs) = x @ c # join [c] xs"
      using Cons by simp
    ultimately show ?thesis
      using Cons.prems by (simp add: split_on_append)
  qed
qed

subsubsection \<open>Digits\<close>

lemma code_digit_char: "d < 10 \<Longrightarrow> code (digit_char d) = 48 + d"
  by (simp add: code_def digit_char_def)

lemma is_digit_digit_char: "d < 10 \<Longrightarrow> is_digit (digit_char d)"
  by (simp add: is_digit_def code_digit_char)

lemma str_nat_digits: "list_all is_digit (str_nat n)"
proof (induction n rule: str_nat.induct)
  case (1 n)
  show ?case
  proof (cases "n < 10")
    case True
    then show ?thesis by (subst str_nat.simps) (simp add: is_digit_digit_char)
  next
    case False
    then show ?thesis using 1
      by (subst str_nat.simps) (simp add: is_digit_digit_char)
  qed
qed

lemma str_nat_nonempty: "str_nat n \<noteq> []"
  by (subst str_nat.simps) simp

lemma int_of_digits_snoc:
  "int_of_digits (ds @ [c]) = 10 * int_of_digits ds + int (code c - 48)"
  by (simp add: int_of_digits_def)

lemma int_of_digits_str_nat: "int_of_digits (str_nat n) = int n"
proof (induction n rule: str_nat.induct)
  case (1 n)
  show ?case
  proof (cases "n < 10")
    case True
    then show ?thesis
      by (subst str_nat.simps) (simp add: int_of_digits_def code_digit_char)
  next
    case False
    then have "int_of_digits (str_nat (n div 10)) = int (n div 10)" using 1 by simp
    then show ?thesis using False
      by (subst str_nat.simps) (simp add: int_of_digits_snoc code_digit_char zdiv_int zmod_int)
  qed
qed

lemma is_digit_word: "is_digit c \<Longrightarrow> is_word c"
  by (simp add: is_digit_def is_word_def is_alnum_def)

lemma int_of_digits_nonneg: "0 \<le> int_of_digits ds"
proof -
  have "0 \<le> a \<Longrightarrow> 0 \<le> foldl (\<lambda>acc c. 10 * acc + int (code c - 48)) a ds" for a :: int
    by (induction ds arbitrary: a) simp_all
  then show ?thesis by (simp add: int_of_digits_def)
qed

subsubsection \<open>startswith and contains\<close>

lemma startswith_hd: "startswith s p \<Longrightarrow> p \<noteq> [] \<Longrightarrow> s \<noteq> [] \<and> hd s = hd p"
  by (cases s; cases p) (auto simp: startswith_def)

lemma startswith_append: "startswith (p @ s) p"
  by (simp add: startswith_def)

lemma contains_append_right: "contains s p \<Longrightarrow> contains (xs @ s) p"
proof (induction xs)
  case Nil
  then show ?case by simp
next
  case (Cons a xs)
  then show ?case by simp
qed

lemma contains_prefix: "contains (p @ s) p"
proof (cases "p @ s")
  case Nil
  then show ?thesis by simp
next
  case (Cons a l)
  have "startswith (a # l) p" using startswith_append [of p s] Cons by simp
  then show ?thesis unfolding Cons by simp
qed

lemma contains_mid: "contains (xs @ p @ ys) p"
  by (rule contains_append_right) (rule contains_prefix)

subsection \<open>The pattern on rendered lines\<close>

lemma category_cases:
  "cat \<in> set license_categories \<Longrightarrow>
   cat = ''ALM'' \<or> cat = ''QA'' \<or> cat = ''Requirements'' \<or> cat = ''Pro'' \<or> cat = ''Reviewer''"
  unfolding license_categories_def set_simps insert_iff empty_iff by blast

lemma char_of_nat_eq: "char_of (n :: nat) = c \<longleftrightarrow> n mod 256 = of_char c"
  by (simp add: char_of_eq_iff take_bit_eq_mod)

lemma category_word:
  assumes "cat \<in> set license_categories"
  shows "list_all is_word cat"
  using category_cases [OF assms]
  by (elim disjE; hypsubst) (simp_all add: is_word_def is_alnum_def code_def)

lemma category_replace:
  assumes "cat \<in> set license_categories"
  shows "replace ''User'' [] (cat @ ''User'') = cat"
  using category_cases [OF assms]
  by (elim disjE; hypsubst) (simp_all add: startswith_def)

lemma category_find:
  assumes "cat \<in> set license_categories"
  shows "first_category (\<lambda>c. lower c = lower cat) = Some cat"
  using category_cases [OF assms]
  by (elim disjE; hypsubst)
     (simp_all add: first_category_def license_categories_def lower_def lower_char_def
        code_def char_of_nat_eq)



lemma takeWhile_all_then:
  "list_all P xs \<Longrightarrow> \<not> P y \<Longrightarrow> takeWhile P (xs @ y # ys) = xs"
  by (simp add: list_all_iff)

lemma dropWhile_all_then:
  "list_all P xs \<Longrightarrow> \<not> P y \<Longrightarrow> dropWhile P (xs @ y # ys) = y # ys"
  by (simp add: list_all_iff)

lemma takeWhile_no_newline:
  "CHR 0x0A \<notin> set u \<Longrightarrow> takeWhile (\<lambda>c. c \<noteq> CHR 0x0A) u = u"
  by (simp add: takeWhile_eq_all_conv) blast

lemma re_match_rendered:
  assumes Q: "list_all is_word Q" "Q \<noteq> []"
    and ds: "list_all is_digit ds" "ds \<noteq> []"
    and u: "u \<noteq> []" "CHR 0x0A \<notin> set u"
  shows "re_match (Q @ ''User'' @ ds @ ''='' @ u) = Some (Q @ ''User'', ds, u)"
proof -
  let ?w = "Q @ ''User'' @ ds"
  have word_ds: "list_all is_word ds"
    using ds(1) by (simp add: list_all_iff is_digit_word)
  have word_User: "list_all is_word ''User''"
    by (simp add: is_word_def is_alnum_def code_def)
  have w: "list_all is_word ?w" using Q(1) word_ds word_User by simp
  have eq: "\<not> is_word CHR ''=''" by (simp add: is_word_def is_alnum_def code_def)
  have line: "Q @ ''User'' @ ds @ ''='' @ u = ?w @ CHR ''='' # u" by simp
  have tw: "takeWhile is_word (Q @ ''User'' @ ds @ ''='' @ u) = ?w"
    unfolding line using w eq by (rule takeWhile_all_then)
  have dw: "dropWhile is_word (Q @ ''User'' @ ds @ ''='' @ u) = CHR ''='' # u"
    unfolding line using w eq by (rule dropWhile_all_then)
  have r: "\<not> is_digit CHR ''r''" by (simp add: is_digit_def code_def)
  have "rev ?w = rev ds @ CHR ''r'' # (''esU'' @ rev Q)" by simp
  moreover have "list_all is_digit (rev ds)" using ds(1) by (simp add: list_all_iff)
  moreover have "takeWhile is_digit (rev ds @ CHR ''r'' # (''esU'' @ rev Q)) = rev ds"
    using \<open>list_all is_digit (rev ds)\<close> r by (rule takeWhile_all_then)
  ultimately have "takeWhile is_digit (rev ?w) = rev ds"
    by (simp only:)
  then have idx: "rev (takeWhile is_digit (rev ?w)) = ds" by simp
  have pre: "take (length ?w - length ds) ?w = Q @ ''User''" by simp
  have len: "4 < length (Q @ ''User'')" using Q(2) by (cases Q) simp_all
  have suffix: "drop (length (Q @ ''User'') - 4) (Q @ ''User'') = ''User''" by simp
  show ?thesis
    unfolding re_match_def tw dw Let_def idx pre
    using len suffix ds(2) u by (simp add: takeWhile_no_newline)
qed

text \<open>The tests before the pattern, for an uncommented and for a commented line.\<close>

lemma not_startswith_hd: "s \<noteq> [] \<Longrightarrow> p \<noteq> [] \<Longrightarrow> hd s \<noteq> hd p \<Longrightarrow> \<not> startswith s p"
  using startswith_hd by blast

lemma assignment_of_plain:
  assumes "L \<noteq> []" "\<not> is_space (hd L)" "\<not> is_space (last L)" "hd L \<noteq> CHR ''#''"
    and "contains L ''=''"
  shows "assignment_of L =
           (case re_match L of Some (p, d, u) \<Rightarrow> Some (True, p, d, u) | None \<Rightarrow> None)"
proof -
  have s: "strip L = L" using assms(1-3) by (rule strip_fixed)
  have h: "\<not> startswith L header_marker" "\<not> startswith L ''# NAMED USERS:''"
    "\<not> startswith L ''# CONCURRENT USERS:''" "\<not> startswith L ''#''"
    by (rule not_startswith_hd [OF assms(1)]; simp add: header_marker_def assms(4))+
  show ?thesis
    unfolding assignment_of_def s Let_def using assms(1,5) h
    by (simp split: option.splits)
qed

lemma assignment_of_commented:
  assumes "M \<noteq> []" "\<not> is_space (hd M)" "\<not> is_space (last M)"
    and "hd M \<notin> {CHR ''-'', CHR ''N'', CHR ''C''}" and "contains M ''=''"
  shows "assignment_of (''# '' @ M) =
           (case re_match M of Some (p, d, u) \<Rightarrow> Some (False, p, d, u) | None \<Rightarrow> None)"
proof -
  let ?X = "CHR ''#'' # CHR '' '' # M"
  obtain h t where M: "M = h # t" using assms(1) by (cases M) auto
  have hash: "\<not> is_space CHR ''#''" by (simp add: is_space_def code_def)
  have sp: "is_space CHR '' ''" by (simp add: is_space_def code_def)
  have "last ?X = last M" using assms(1) by simp
  then have s: "strip ?X = ?X"
    using assms(3) hash by (intro strip_fixed) simp_all
  have sM: "strip M = M" using assms(1-3) by (rule strip_fixed)
  have "strip (CHR '' '' # M) = strip M"
    using sp by (simp add: strip_def)
  then have d: "strip (CHR '' '' # M) = M" using sM by simp
  have h: "\<not> startswith ?X header_marker"
    "\<not> startswith ?X ''# NAMED USERS:''"
    "\<not> startswith ?X ''# CONCURRENT USERS:''"
    using assms(4) unfolding M by (simp_all add: startswith_def header_marker_def)
  have a: "startswith ?X ''#''" by (simp add: startswith_def)
  have c: "contains ?X ''=''"
    using assms(5) contains_append_right [of M "''=''" "''# ''"] by simp
  have "assignment_of ?X =
           (case re_match M of Some (p, d, u) \<Rightarrow> Some (False, p, d, u) | None \<Rightarrow> None)"
    unfolding assignment_of_def s Let_def
    by (simp add: h a c d del: contains.simps split: option.splits)
  then show ?thesis by simp
qed

subsection \<open>Rendered lines parse back\<close>

lemma lower_append: "lower (xs @ ys) = lower xs @ lower ys"
  by (simp add: lower_def)

lemma lower_modes:
  "lower ''Named'' = ''named''" "lower ''Concurrent'' = ''concurrent''"
  "lower ''named'' = ''named''" "lower ''concurrent'' = ''concurrent''"
  "lower ''User'' = ''user''"
  by (simp_all add: lower_def lower_char_def code_def char_of_nat_eq)

lemma mode_word: "list_all is_word ''named''" "list_all is_word ''concurrent''"
  by (simp_all add: is_word_def is_alnum_def code_def)

lemma not_word_newline: "\<not> is_word (CHR 0x0A)"
  by (simp add: is_word_def is_alnum_def code_def)

lemma prefix_of_rendered:
  assumes "at \<in> {''Named'', ''Concurrent''}" "cat \<in> set license_categories"
  shows "prefix_category ((lower at @ cat) @ ''User'') = Some cat"
    and "prefix_mode ((lower at @ cat) @ ''User'') = at"
    and "list_all is_word (lower at @ cat)"
    and "hd (lower at @ cat) \<in> {CHR ''n'', CHR ''c''}"
    and "lower at @ cat \<noteq> []"
proof -
  note c = category_replace [OF assms(2)] category_find [OF assms(2)]
    category_word [OF assms(2)]
  from assms(1) have "at = ''Named'' \<or> at = ''Concurrent''" by blast
  then have "prefix_category ((lower at @ cat) @ ''User'') = Some cat
      \<and> prefix_mode ((lower at @ cat) @ ''User'') = at
      \<and> list_all is_word (lower at @ cat)
      \<and> hd (lower at @ cat) \<in> {CHR ''n'', CHR ''c''} \<and> lower at @ cat \<noteq> []"
  proof
    assume at: "at = ''Named''"
    have s: "\<not> startswith (lower ((lower at @ cat) @ ''User'')) ''concurrent''"
      "startswith (lower ((lower at @ cat) @ ''User'')) ''named''"
      unfolding at lower_append lower_modes by (simp_all add: startswith_def)
    have d: "drop 5 ((lower at @ cat) @ ''User'') = cat @ ''User''"
      unfolding at lower_modes by simp
    show ?thesis
      unfolding prefix_category_def prefix_mode_def category_of_part_def
      using s d c at mode_word by (simp add: lower_modes)
  next
    assume at: "at = ''Concurrent''"
    have s: "startswith (lower ((lower at @ cat) @ ''User'')) ''concurrent''"
      unfolding at lower_append lower_modes by (simp_all add: startswith_def)
    have d: "drop 10 ((lower at @ cat) @ ''User'') = cat @ ''User''"
      unfolding at lower_modes by simp
    show ?thesis
      unfolding prefix_category_def prefix_mode_def category_of_part_def
      using s d c at mode_word by (simp add: lower_modes)
  qed
  then show "prefix_category ((lower at @ cat) @ ''User'') = Some cat"
    and "prefix_mode ((lower at @ cat) @ ''User'') = at"
    and "list_all is_word (lower at @ cat)"
    and "hd (lower at @ cat) \<in> {CHR ''n'', CHR ''c''}"
    and "lower at @ cat \<noteq> []"
    by simp_all
qed

lemma str_int_nonneg:
  assumes "0 \<le> i"
  shows "list_all is_digit (str_int i)" "str_int i \<noteq> []" "int_of_digits (str_int i) = i"
  using assms by (simp_all add: str_int_def str_nat_digits str_nat_nonempty int_of_digits_str_nat)

lemma license_line_shape:
  "license_line at cat i u = (lower at @ cat) @ ''User'' @ str_int i @ ''='' @ u"
  by (simp add: license_line_def)

lemma not_space_nc: "c \<in> {CHR ''n'', CHR ''c''} \<Longrightarrow> \<not> is_space c"
  by (auto simp: is_space_def code_def)

lemma rendered_active:
  assumes "parsed_entry e"
  shows "explicit_entry (license_line (assignment_type e) (license_type e) (index e)
                           (LicenseEntry.user_id e)) = Some (quad e, True)"
    and "explicit_line (license_line (assignment_type e) (license_type e) (index e)
                           (LicenseEntry.user_id e))"
proof -
  let ?at = "assignment_type e" and ?cat = "license_type e" and ?i = "index e"
    and ?u = "LicenseEntry.user_id e"
  let ?Q = "lower ?at @ ?cat"
  let ?L = "?Q @ ''User'' @ str_int ?i @ ''='' @ ?u"
  have at: "?at \<in> {''Named'', ''Concurrent''}" and cat: "?cat \<in> set license_categories"
    and i: "0 \<le> ?i" and u: "?u \<noteq> []" "strip ?u = ?u" "CHR 0x0A \<notin> set ?u"
    using assms by (simp_all add: parsed_entry_def)
  note p = prefix_of_rendered [OF at cat]
  note d = str_int_nonneg [OF i]
  have m: "re_match ?L = Some (?Q @ ''User'', str_int ?i, ?u)"
    using p(3) p(5) d(1) d(2) u(1) u(3) by (rule re_match_rendered)
  have ne: "?L \<noteq> []" using p(5) by simp
  have hd: "hd ?L = hd ?Q" using p(5) by (rule hd_append2)
  have last: "last ?L = last ?u" using u(1) by simp
  have "\<not> is_space (last (strip ?u))" using u(1,2) by (intro strip_ends) simp
  then have lu: "\<not> is_space (last ?L)" using u(2) last by simp
  have hs: "\<not> is_space (hd ?L)" using p(4) hd not_space_nc by simp
  have hh: "hd ?L \<noteq> CHR ''#''" using p(4) hd by auto
  have "?L = (?Q @ ''User'' @ str_int ?i) @ ''='' @ ?u" by simp
  then have c: "contains ?L ''=''" using contains_mid by metis
  have a: "assignment_of ?L = Some (True, ?Q @ ''User'', str_int ?i, ?u)"
    using assignment_of_plain [OF ne hs lu hh c] m by simp
  show "explicit_entry (license_line ?at ?cat ?i ?u) = Some (quad e, True)"
    unfolding license_line_shape explicit_entry_def a
    using p(1,2) u d(3) by (simp add: quad_def)
  show "explicit_line (license_line ?at ?cat ?i ?u)"
    unfolding license_line_shape explicit_line_def a using p(1) by simp
qed

lemma rendered_inactive:
  assumes "parsed_entry e"
  shows "explicit_line (''# '' @ license_line (assignment_type e) (license_type e) (index e)
                           (LicenseEntry.user_id e) @ '' (removed)'')"
    and "explicit_entry (''# '' @ license_line (assignment_type e) (license_type e) (index e)
                           (LicenseEntry.user_id e) @ '' (removed)'') \<noteq> Some (q, True)"
proof -
  let ?at = "assignment_type e" and ?cat = "license_type e" and ?i = "index e"
    and ?u = "LicenseEntry.user_id e"
  let ?Q = "lower ?at @ ?cat"
  let ?v = "?u @ '' (removed)''"
  let ?M = "?Q @ ''User'' @ str_int ?i @ ''='' @ ?v"
  have at: "?at \<in> {''Named'', ''Concurrent''}" and cat: "?cat \<in> set license_categories"
    and i: "0 \<le> ?i" and u: "CHR 0x0A \<notin> set ?u"
    using assms by (simp_all add: parsed_entry_def)
  note p = prefix_of_rendered [OF at cat]
  note d = str_int_nonneg [OF i]
  have v: "?v \<noteq> []" "CHR 0x0A \<notin> set ?v" using u by simp_all
  have m: "re_match ?M = Some (?Q @ ''User'', str_int ?i, ?v)"
    using p(3) p(5) d(1) d(2) v by (rule re_match_rendered)
  have ne: "?M \<noteq> []" using p(5) by simp
  have hd: "hd ?M = hd ?Q" using p(5) by (rule hd_append2)
  have lu: "\<not> is_space (last ?M)" by (simp add: is_space_def code_def)
  have hs: "\<not> is_space (hd ?M)" using p(4) hd not_space_nc by simp
  have hh: "hd ?M \<notin> {CHR ''-'', CHR ''N'', CHR ''C''}" using p(4) hd by auto
  have "?M = (?Q @ ''User'' @ str_int ?i) @ ''='' @ ?v" by simp
  then have c: "contains ?M ''=''" using contains_mid by metis
  have shape: "''# '' @ license_line ?at ?cat ?i ?u @ '' (removed)'' = ''# '' @ ?M"
    by (simp add: license_line_def)
  have a: "assignment_of (''# '' @ ?M) = Some (False, ?Q @ ''User'', str_int ?i, ?v)"
    using assignment_of_commented [OF ne hs lu hh c] m by simp
  show "explicit_line (''# '' @ license_line ?at ?cat ?i ?u @ '' (removed)'')"
    unfolding shape explicit_line_def a using p(1) by simp
  show "explicit_entry (''# '' @ license_line ?at ?cat ?i ?u @ '' (removed)'') \<noteq> Some (q, True)"
    unfolding shape explicit_entry_def a by (simp split: option.splits)
qed

lemma rendered_no_newline:
  assumes "parsed_entry e"
  shows "CHR 0x0A \<notin> set (render_entry (license_type e) (assignment_type e) e)"
proof -
  let ?at = "assignment_type e" and ?cat = "license_type e" and ?i = "index e"
    and ?u = "LicenseEntry.user_id e"
  have at: "?at \<in> {''Named'', ''Concurrent''}" and cat: "?cat \<in> set license_categories"
    and i: "0 \<le> ?i" and u: "CHR 0x0A \<notin> set ?u"
    using assms by (simp_all add: parsed_entry_def)
  note p = prefix_of_rendered [OF at cat]
  note d = str_int_nonneg [OF i]
  have "list_all is_word (str_int ?i)"
    using d(1) by (simp add: list_all_iff is_digit_word)
  then have "list_all is_word ((lower ?at @ ?cat) @ str_int ?i)" using p(3) by simp
  then have "CHR 0x0A \<notin> set ((lower ?at @ ?cat) @ str_int ?i)"
    using not_word_newline unfolding list_all_iff by blast
  then have "CHR 0x0A \<notin> set (license_line ?at ?cat ?i ?u)"
    using u by (simp add: license_line_def)
  then show ?thesis by (simp add: render_entry_def)
qed

lemma rendered_explicit:
  assumes "parsed_entry e"
  shows "explicit_line (render_entry (license_type e) (assignment_type e) e)"
    and "explicit_entry (render_entry (license_type e) (assignment_type e) e) = Some (q, True)
         \<longleftrightarrow> is_active e \<and> q = quad e"
proof -
  show "explicit_line (render_entry (license_type e) (assignment_type e) e)"
    using rendered_active(2) [OF assms] rendered_inactive(1) [OF assms]
    by (simp add: render_entry_def)
  show "explicit_entry (render_entry (license_type e) (assignment_type e) e) = Some (q, True)
         \<longleftrightarrow> is_active e \<and> q = quad e"
    using rendered_active(1) [OF assms] rendered_inactive(2) [OF assms, of q]
    by (auto simp: render_entry_def)
qed

subsection \<open>Categories of prefixes; the kept lines; the groups\<close>

lemma first_category_mem: "first_category P = Some c \<Longrightarrow> c \<in> set license_categories"
  unfolding first_category_def by (auto simp: find_Some_iff)

lemma prefix_category_mem: "prefix_category p = Some c \<Longrightarrow> c \<in> set license_categories"
  unfolding prefix_category_def category_of_part_def
  by (auto split: if_splits option.splits dest: first_category_mem)

lemma prefix_mode_mem: "prefix_mode p \<in> {''Named'', ''Concurrent''}"
  by (simp add: prefix_mode_def)

lemma re_match_no_newline:
  "re_match l = Some (p, ds, u) \<Longrightarrow> CHR 0x0A \<notin> set u"
proof -
  assume "re_match l = Some (p, ds, u)"
  then have "u = takeWhile (\<lambda>c. c \<noteq> CHR 0x0A) (drop 1 (dropWhile is_word l))"
    by (simp add: re_match_def Let_def split: if_splits)
  then show ?thesis using set_takeWhileD by fastforce
qed

lemma assignment_of_no_newline:
  "assignment_of raw = Some (a, p, ds, u) \<Longrightarrow> CHR 0x0A \<notin> set u"
  unfolding assignment_of_def Let_def
  by (auto split: if_splits option.splits dest: re_match_no_newline)

subsubsection \<open>The lines that the serializer keeps\<close>

lemma set_rebuild: "set (rebuild cc ca ls) \<subseteq> set ls"
proof (induction ls arbitrary: cc ca)
  case Nil
  then show ?case by simp
next
  case (Cons l ls)
  have "set (rebuild cc' ca' ls) \<subseteq> insert l (set ls)" for cc' ca'
    using Cons [of cc' ca'] by blast
  then show ?case by (simp add: Let_def)
qed

lemma rebuild_first: "rebuild None ca (l # ls) \<noteq> []"
  by (simp add: Let_def)

subsubsection \<open>The groups\<close>

lemma group_step_sound:
  assumes "\<forall>(k, es)\<in>set g. \<forall>e\<in>set es. e \<in> S \<and> k = (license_type e, assignment_type e)"
    and "x \<in> S"
  shows "\<forall>(k, es)\<in>set (group_step x g).
           \<forall>e\<in>set es. e \<in> S \<and> k = (license_type e, assignment_type e)"
proof (cases "map_of g (license_type x, assignment_type x)")
  case None
  show ?thesis
    unfolding group_step_def Let_def None
    using assms set_update_subset [of _ "(license_type x, assignment_type x)" "[x]" g]
    by fastforce
next
  case (Some es0)
  have in_g: "((license_type x, assignment_type x), es0) \<in> set g"
    using Some by (rule map_of_SomeD)
  show ?thesis
    unfolding group_step_def Let_def Some
    using assms in_g
      set_update_subset [of _ "(license_type x, assignment_type x)" "es0 @ [x]" g]
    by fastforce
qed

lemma fold_group_step_sound:
  assumes "\<forall>(k, es)\<in>set g. \<forall>e\<in>set es. e \<in> S \<and> k = (license_type e, assignment_type e)"
    and "set xs \<subseteq> S"
  shows "\<forall>(k, es)\<in>set (fold group_step xs g).
           \<forall>e\<in>set es. e \<in> S \<and> k = (license_type e, assignment_type e)"
  using assms
proof (induction xs arbitrary: g)
  case Nil
  then show ?case by simp
next
  case (Cons x xs)
  have "x \<in> S" "set xs \<subseteq> S" using Cons.prems(2) by simp_all
  from Cons.IH [OF group_step_sound [OF Cons.prems(1) this(1)] this(2)]
  show ?case by simp
qed

lemma group_step_keeps:
  assumes "\<exists>es. map_of g (license_type e, assignment_type e) = Some es \<and> e \<in> set es"
  shows "\<exists>es. map_of (group_step x g) (license_type e, assignment_type e) = Some es
              \<and> e \<in> set es"
  using assms
  by (cases "map_of g (license_type x, assignment_type x)")
     (auto simp: group_step_def Let_def update_conv')

lemma group_step_adds:
  "\<exists>es. map_of (group_step x g) (license_type x, assignment_type x) = Some es \<and> x \<in> set es"
  by (cases "map_of g (license_type x, assignment_type x)")
     (auto simp: group_step_def Let_def update_conv')

lemma fold_group_step_keeps:
  assumes "\<exists>es. map_of g (license_type e, assignment_type e) = Some es \<and> e \<in> set es"
  shows "\<exists>es. map_of (fold group_step xs g) (license_type e, assignment_type e) = Some es
              \<and> e \<in> set es"
  using assms
proof (induction xs arbitrary: g)
  case Nil
  then show ?case by simp
next
  case (Cons x xs)
  from Cons.IH [OF group_step_keeps [OF Cons.prems]] show ?case by simp
qed

lemma fold_group_step_complete:
  assumes "e \<in> set xs"
  shows "\<exists>es. map_of (fold group_step xs g) (license_type e, assignment_type e) = Some es
              \<and> e \<in> set es"
  using assms
proof (induction xs arbitrary: g)
  case Nil
  then show ?case by simp
next
  case (Cons x xs)
  show ?case
  proof (cases "e = x")
    case True
    from fold_group_step_keeps [OF group_step_adds [of x g], of xs] True
    show ?thesis by simp
  next
    case False
    then have "e \<in> set xs" using Cons.prems by simp
    from Cons.IH [OF this] show ?thesis by simp
  qed
qed

lemma grouped_sound:
  "((c, m), es) \<in> set (grouped E) \<Longrightarrow> e \<in> set es \<Longrightarrow>
   e \<in> set E \<and> c = license_type e \<and> m = assignment_type e"
proof -
  assume a: "((c, m), es) \<in> set (grouped E)" "e \<in> set es"
  have "\<forall>(k, es)\<in>set (grouped E).
           \<forall>e\<in>set es. e \<in> set E \<and> k = (license_type e, assignment_type e)"
    unfolding grouped_def by (rule fold_group_step_sound) simp_all
  then show ?thesis using a by fastforce
qed

lemma grouped_complete:
  assumes "e \<in> set E"
  shows "\<exists>es. ((license_type e, assignment_type e), es) \<in> set (grouped E) \<and> e \<in> set es"
proof -
  have "e \<in> set (sort_key entry_key E)" using assms by simp
  from fold_group_step_complete [OF this, of "[]"]
  show ?thesis unfolding grouped_def by (auto dest: map_of_SomeD)
qed

subsection \<open>The place of a group\<close>

subsubsection \<open>The last section marker\<close>

lemma from_last_marker_None:
  "from_last_marker c L = None \<longleftrightarrow> (\<forall>l\<in>set L. \<not> contains l (section_marker c))"
  by (induction L) (auto split: option.splits)

lemma from_last_marker_Some:
  "from_last_marker c L = Some r \<Longrightarrow>
   \<exists>xs l ys. L = xs @ l # ys \<and> r = l # ys \<and> contains l (section_marker c)
             \<and> (\<forall>y\<in>set ys. \<not> contains y (section_marker c))"
proof (induction L arbitrary: r)
  case Nil
  then show ?case by simp
next
  case (Cons a L)
  show ?case
  proof (cases "from_last_marker c L")
    case None
    then have r: "r = a # L" and a: "contains a (section_marker c)"
      using Cons.prems by (auto split: if_splits)
    have "\<forall>y\<in>set L. \<not> contains y (section_marker c)"
      using None by (simp add: from_last_marker_None)
    then show ?thesis using r a
      by (intro exI [where x = "[]"] exI [where x = a] exI [where x = L]) simp
  next
    case (Some r')
    then have "r = r'" using Cons.prems by simp
    with Cons.IH [OF Some] obtain xs l ys where
      "L = xs @ l # ys" "r = l # ys" "contains l (section_marker c)"
      "\<forall>y\<in>set ys. \<not> contains y (section_marker c)" by blast
    then show ?thesis
      by (intro exI [where x = "a # xs"] exI [where x = l] exI [where x = ys]) simp
  qed
qed

lemma from_last_marker_decomp:
  assumes "contains l (section_marker c)" "\<forall>y\<in>set ys. \<not> contains y (section_marker c)"
  shows "from_last_marker c (xs @ l # ys) = Some (l # ys)"
proof (induction xs)
  case Nil
  have "from_last_marker c ys = None" using assms(2) by (simp add: from_last_marker_None)
  then show ?case using assms(1) by simp
next
  case (Cons a xs)
  then show ?case by simp
qed

lemma has_place_iff:
  "has_place c m L \<longleftrightarrow>
     (\<exists>xs l ys. L = xs @ l # ys \<and> contains l (section_marker c)
                \<and> (\<forall>y\<in>set ys. \<not> contains y (section_marker c))
                \<and> (\<exists>z\<in>set (l # ys). contains z (subheader m)))"
proof
  assume "has_place c m L"
  then obtain r where r: "from_last_marker c L = Some r"
    and z: "\<exists>z\<in>set r. contains z (subheader m)"
    by (auto simp: has_place_def list_ex_iff split: option.splits)
  from from_last_marker_Some [OF r] z show
    "\<exists>xs l ys. L = xs @ l # ys \<and> contains l (section_marker c)
                \<and> (\<forall>y\<in>set ys. \<not> contains y (section_marker c))
                \<and> (\<exists>z\<in>set (l # ys). contains z (subheader m))"
    by blast
next
  assume "\<exists>xs l ys. L = xs @ l # ys \<and> contains l (section_marker c)
                \<and> (\<forall>y\<in>set ys. \<not> contains y (section_marker c))
                \<and> (\<exists>z\<in>set (l # ys). contains z (subheader m))"
  then obtain xs l ys where L: "L = xs @ l # ys" and l: "contains l (section_marker c)"
    and ys: "\<forall>y\<in>set ys. \<not> contains y (section_marker c)"
    and z: "\<exists>z\<in>set (l # ys). contains z (subheader m)" by blast
  show "has_place c m L"
    unfolding has_place_def L from_last_marker_decomp [OF l ys]
    using z by (simp add: list_ex_iff)
qed

lemma has_place_insert:
  assumes "has_place c m L" "\<forall>r\<in>set R. \<not> contains r (section_marker c)"
  shows "has_place c m (take k L @ R @ drop k L)"
proof -
  from assms(1) obtain xs l ys where L: "L = xs @ l # ys"
    and l: "contains l (section_marker c)"
    and ys: "\<forall>y\<in>set ys. \<not> contains y (section_marker c)"
    and z: "\<exists>z\<in>set (l # ys). contains z (subheader m)"
    unfolding has_place_iff by blast
  show ?thesis
  proof (cases "k \<le> length xs")
    case True
    then have "take k L @ R @ drop k L = (take k xs @ R @ drop k xs) @ l # ys"
      unfolding L by simp
    then show ?thesis unfolding has_place_iff using l ys z by blast
  next
    case False
    define j where "j = k - Suc (length xs)"
    have k: "k = length xs + Suc j" using False by (simp add: j_def)
    have eq: "take k L @ R @ drop k L = xs @ l # (take j ys @ R @ drop j ys)"
      unfolding L k by simp
    have no: "\<forall>y\<in>set (take j ys @ R @ drop j ys). \<not> contains y (section_marker c)"
      using ys assms(2) by (auto dest: in_set_takeD in_set_dropD)
    from z obtain z where z: "z \<in> set (l # ys)" "contains z (subheader m)" by blast
    have "set ys = set (take j ys) \<union> set (drop j ys)"
      by (metis append_take_drop_id set_append)
    then have "z \<in> set (l # (take j ys @ R @ drop j ys))" using z(1) by auto
    then show ?thesis unfolding has_place_iff eq using l no z(2) by blast
  qed
qed

subsubsection \<open>The searches of the serializer\<close>

lemma find_section_start: "start \<noteq> None \<Longrightarrow> find_section c L n start \<noteq> None"
  by (induction L arbitrary: n start) auto

lemma find_section_found:
  "\<exists>l\<in>set L. contains l (section_marker c) \<Longrightarrow> find_section c L n start \<noteq> None"
proof (induction L arbitrary: n start)
  case Nil
  then show ?case by simp
next
  case (Cons a L)
  show ?case
  proof (cases "contains a (section_marker c)")
    case True
    then show ?thesis
      using find_section_start [of "Some n" c L "Suc n"] by (simp add: section_marker_def)
  next
    case False
    then have "\<exists>l\<in>set L. contains l (section_marker c)" using Cons.prems by simp
    from Cons.IH [OF this] False show ?thesis
      by (simp add: section_marker_def)
  qed
qed

lemma nth_Cons_shift: "Suc n \<le> k \<Longrightarrow> (a # L) ! (k - n) = L ! (k - Suc n)"
  by (simp add: Suc_diff_le)

lemma find_section_Some:
  "find_section c L n start = Some k \<Longrightarrow>
   start = Some k \<or> (n \<le> k \<and> k - n < length L \<and> contains (L ! (k - n)) (section_marker c))"
proof (induction L arbitrary: n start)
  case Nil
  then show ?case by simp
next
  case (Cons a L)
  show ?case
  proof (cases "contains a (section_marker c)")
    case True
    then have "find_section c L (Suc n) (Some n) = Some k"
      using Cons.prems by (simp add: section_marker_def)
    from Cons.IH [OF this] show ?thesis
    proof
      assume "Some n = Some k"
      then show ?thesis using True by simp
    next
      assume "Suc n \<le> k \<and> k - Suc n < length L \<and> contains (L ! (k - Suc n)) (section_marker c)"
      then show ?thesis using nth_Cons_shift [of n k a L] by auto
    qed
  next
    case False
    show ?thesis
    proof (cases "start \<noteq> None \<and> startswith a ''# -------------------------------''")
      case True
      then show ?thesis using Cons.prems False by (simp add: section_marker_def)
    next
      case False
      then have "find_section c L (Suc n) start = Some k"
        using Cons.prems \<open>\<not> contains a (section_marker c)\<close>
        by (auto simp: section_marker_def)
      from Cons.IH [OF this] show ?thesis
        using nth_Cons_shift [of n k a L] by auto
    qed
  qed
qed

lemma first_index_found: "\<exists>x\<in>set xs. P x \<Longrightarrow> first_index P xs \<noteq> None"
  by (simp add: first_index_None)

lemma insert_fold:
  "k \<le> length L \<Longrightarrow>
   fst (fold (\<lambda>entry (ls, k). (insert_at k (r entry) ls, Suc k)) es (L, k))
     = take k L @ map r es @ drop k L"
proof (induction es arbitrary: L k)
  case Nil
  then show ?case by simp
next
  case (Cons e es)
  let ?L = "insert_at k (r e) L"
  have len: "Suc k \<le> length ?L" using Cons.prems by (simp add: insert_at_def)
  have t: "take (Suc k) ?L = take k L @ [r e]" and d: "drop (Suc k) ?L = drop k L"
    using Cons.prems by (simp_all add: insert_at_def)
  show ?case
    using Cons.IH [OF len] by (simp add: t d)
qed

lemma insert_group_cases:
  "insert_group ((c, m), es) L = L
   \<or> (\<exists>k. insert_group ((c, m), es) L = take k L @ map (render_entry c m) es @ drop k L)"
proof (cases "find_section c L 0 None")
  case None
  then show ?thesis by (simp add: insert_group_def)
next
  case (Some s)
  show ?thesis
  proof (cases "find_subsection m L s")
    case None
    then show ?thesis using Some by (simp add: insert_group_def)
  next
    case (Some k)
    then obtain i where i: "first_index (\<lambda>line. contains line (''# '' @ upper m @ '' USERS:''))
                              (drop s L) = Some i" and k: "k = s + i + 1"
      by (auto simp: find_subsection_def split: option.splits)
    have "i < length (drop s L)" using first_index_Some [OF i] by simp
    then have "k \<le> length L" using k by simp
    from insert_fold [OF this, of "render_entry c m" es]
    have "insert_group ((c, m), es) L = take k L @ map (render_entry c m) es @ drop k L"
      using \<open>find_section c L 0 None = Some s\<close> Some
      by (simp add: insert_group_def)
    then show ?thesis by blast
  qed
qed

lemma insert_group_placed:
  assumes "has_place c m L"
  shows "\<exists>k. insert_group ((c, m), es) L = take k L @ map (render_entry c m) es @ drop k L"
proof -
  from assms obtain xs l ys where L: "L = xs @ l # ys"
    and l: "contains l (section_marker c)"
    and ys: "\<forall>y\<in>set ys. \<not> contains y (section_marker c)"
    and z: "\<exists>z\<in>set (l # ys). contains z (subheader m)"
    unfolding has_place_iff by blast
  have "\<exists>l\<in>set L. contains l (section_marker c)" using L l by auto
  then obtain s where s: "find_section c L 0 None = Some s"
    using find_section_found [of L c 0 None] by auto
  from find_section_Some [OF s] have sl: "s < length L"
    and sm: "contains (L ! s) (section_marker c)" by simp_all
  have "s \<le> length xs"
  proof (rule ccontr)
    assume "\<not> s \<le> length xs"
    then have "Suc (length xs) \<le> s" by simp
    then have "L ! s = ys ! (s - Suc (length xs))" "s - Suc (length xs) < length ys"
      using sl nth_Cons_shift [of "length xs" s l ys] unfolding L
      by (auto simp: nth_append)
    then have "L ! s \<in> set ys" by simp
    then show False using ys sm by blast
  qed
  then have "drop s L = drop s xs @ l # ys" unfolding L by simp
  then have "\<exists>x\<in>set (drop s L). contains x (subheader m)" using z by auto
  then obtain i where i: "first_index (\<lambda>line. contains line (subheader m)) (drop s L) = Some i"
    using first_index_found [of "drop s L" "\<lambda>line. contains line (subheader m)"] by auto
  then have sub: "find_subsection m L s = Some (s + i + 1)"
    by (simp add: find_subsection_def subheader_def)
  have "i < length (drop s L)" using first_index_Some [OF i] by simp
  then have "s + i + 1 \<le> length L" by simp
  from insert_fold [OF this, of "render_entry c m" es]
  show ?thesis using s sub by (auto simp: insert_group_def)
qed

subsection \<open>The groups inserted one after the other\<close>

lemma insert_group_set:
  "set L \<subseteq> set (insert_group ((c, m), es) L)"
  "set (insert_group ((c, m), es) L) \<subseteq> set L \<union> render_entry c m ` set es"
proof -
  have L: "set L = set (take k L) \<union> set (drop k L)" for k
    by (metis append_take_drop_id set_append)
  from insert_group_cases [of c m es L]
  show "set L \<subseteq> set (insert_group ((c, m), es) L)"
    using L by (elim disjE exE) auto
  from insert_group_cases [of c m es L]
  show "set (insert_group ((c, m), es) L) \<subseteq> set L \<union> render_entry c m ` set es"
    using L by (elim disjE exE) auto
qed

lemma insert_group_has_place:
  assumes "has_place c' m' L"
    and "\<forall>e\<in>set es. \<not> contains (render_entry c m e) (section_marker c')"
  shows "has_place c' m' (insert_group ((c, m), es) L)"
proof -
  from insert_group_cases [of c m es L] show ?thesis
  proof (elim disjE exE)
    assume "insert_group ((c, m), es) L = L"
    then show ?thesis using assms(1) by simp
  next
    fix k
    assume k: "insert_group ((c, m), es) L = take k L @ map (render_entry c m) es @ drop k L"
    have "\<forall>r\<in>set (map (render_entry c m) es). \<not> contains r (section_marker c')"
      using assms(2) by simp
    from has_place_insert [OF assms(1) this, of k] show ?thesis unfolding k .
  qed
qed

lemma insert_group_renders:
  assumes "has_place c m L"
  shows "render_entry c m ` set es \<subseteq> set (insert_group ((c, m), es) L)"
proof -
  from insert_group_placed [OF assms, of es] obtain k where
    "insert_group ((c, m), es) L = take k L @ map (render_entry c m) es @ drop k L" by blast
  then show ?thesis by auto
qed

lemma fold_insert_group_mono: "set L \<subseteq> set (fold insert_group gs L)"
proof (induction gs arbitrary: L)
  case Nil
  then show ?case by simp
next
  case (Cons g gs)
  obtain c m es where g: "g = ((c, m), es)" by (cases g) auto
  have "set L \<subseteq> set (insert_group g L)" unfolding g by (rule insert_group_set)
  also have "\<dots> \<subseteq> set (fold insert_group gs (insert_group g L))" by (rule Cons.IH)
  finally show ?case by simp
qed

lemma fold_insert_group_upper:
  "set (fold insert_group gs L)
     \<subseteq> set L \<union> (\<Union>((c, m), es)\<in>set gs. render_entry c m ` set es)"
proof (induction gs arbitrary: L)
  case Nil
  then show ?case by simp
next
  case (Cons g gs)
  obtain c m es where g: "g = ((c, m), es)" by (cases g) auto
  have "set (insert_group g L) \<subseteq> set L \<union> render_entry c m ` set es"
    unfolding g by (rule insert_group_set)
  with Cons.IH [of "insert_group g L"] show ?case unfolding g by auto
qed

lemma fold_insert_group_renders:
  assumes "\<forall>((c, m), es)\<in>set gs. \<forall>e\<in>set es. \<forall>a\<in>C.
             \<not> contains (render_entry c m e) (section_marker a)"
    and "((c, m), es) \<in> set gs" "c \<in> C" "has_place c m L"
  shows "render_entry c m ` set es \<subseteq> set (fold insert_group gs L)"
  using assms
proof (induction gs arbitrary: L)
  case Nil
  then show ?case by simp
next
  case (Cons g gs)
  obtain c1 m1 es1 where g: "g = ((c1, m1), es1)" by (cases g) auto
  have clean_g: "\<forall>e\<in>set es1. \<not> contains (render_entry c1 m1 e) (section_marker c)"
    using Cons.prems(1,3) unfolding g by auto
  have clean_gs: "\<forall>((c, m), es)\<in>set gs. \<forall>e\<in>set es. \<forall>a\<in>C.
             \<not> contains (render_entry c m e) (section_marker a)"
    using Cons.prems(1) by simp
  have place: "has_place c m (insert_group g L)"
    unfolding g using Cons.prems(4) clean_g by (rule insert_group_has_place)
  show ?case
  proof (cases "((c, m), es) \<in> set gs")
    case True
    from Cons.IH [OF clean_gs True Cons.prems(3) place] show ?thesis by simp
  next
    case False
    then have "g = ((c, m), es)" using Cons.prems(2) by simp
    then have "render_entry c m ` set es \<subseteq> set (insert_group g L)"
      using insert_group_renders [OF Cons.prems(4), of es] by simp
    also have "\<dots> \<subseteq> set (fold insert_group gs (insert_group g L))"
      by (rule fold_insert_group_mono)
    finally show ?thesis by simp
  qed
qed


lemma reparsed_eq: "reparsed s t = parse_entries (serialize t (parse_entries t))"
  by (simp add: reparsed_def parse_license_configuration_def update_license_config_text_def)

subsection \<open>The parse of stable lines\<close>

lemma parse_assignment_category:
  "current_category (parse_assignment n a p ds u st) = current_category st"
  by (simp add: parse_assignment_def Let_def split: prod.splits option.splits)

lemma parse_step_category:
  "current_category (parse_step n raw st) = next_category (current_category st) raw"
  by (simp add: parse_step_def next_category_def Let_def parse_assignment_category
      split: option.splits prod.splits)

lemma parse_assignment_stable:
  assumes "startswith (lower p) ''concurrent'' \<or> startswith (lower p) ''named''
           \<or> first_category (\<lambda>category. contains (lower p) (lower category)) \<noteq> None"
  shows "entries (parse_assignment n a p ds u st) =
           entries st @
           (if strip u = [] then []
            else (case (case prefix_category p of Some c \<Rightarrow> Some c
                        | None \<Rightarrow> current_category st) of
                    None \<Rightarrow> []
                  | Some c \<Rightarrow>
                      [\<lparr>license_type = c, assignment_type = prefix_mode p,
                        index = int_of_digits ds, user_id = strip u,
                        line_number = n, is_active = a\<rparr>]))"
proof (cases "strip u = []")
  case True
  then show ?thesis by (simp add: parse_assignment_def)
next
  case False
  consider (conc) "startswith (lower p) ''concurrent''"
    | (named) "\<not> startswith (lower p) ''concurrent''" "startswith (lower p) ''named''"
    | (other) "\<not> startswith (lower p) ''concurrent''" "\<not> startswith (lower p) ''named''"
    by blast
  then show ?thesis
  proof cases
    case conc
    show ?thesis
    proof (cases "first_category (\<lambda>category. lower category = lower (replace ''User'' [] (drop 10 p)))")
      case None
      then show ?thesis using conc False
        by (simp add: parse_assignment_def prefix_category_def prefix_mode_def category_of_part_def
            split: option.splits)
    next
      case (Some x)
      then show ?thesis using conc False
        by (simp add: parse_assignment_def prefix_category_def prefix_mode_def category_of_part_def)
    qed
  next
    case named
    show ?thesis
    proof (cases "first_category (\<lambda>category. lower category = lower (replace ''User'' [] (drop 5 p)))")
      case None
      then show ?thesis using named False
        by (simp add: parse_assignment_def prefix_category_def prefix_mode_def category_of_part_def
            split: option.splits)
    next
      case (Some x)
      then show ?thesis using named False
        by (simp add: parse_assignment_def prefix_category_def prefix_mode_def category_of_part_def)
    qed
  next
    case other
    then obtain c where "first_category (\<lambda>category. contains (lower p) (lower category)) = Some c"
      using assms by auto
    then show ?thesis using other False
      by (simp add: parse_assignment_def prefix_category_def prefix_mode_def)
  qed
qed

lemma parse_step_stable:
  assumes "stable_line raw"
  shows "entries (parse_step n raw st) =
           entries st @
           (case context_entry (current_category st) raw of
              None \<Rightarrow> []
            | Some ((c, m, i, u), a) \<Rightarrow>
                [\<lparr>license_type = c, assignment_type = m, index = i, user_id = u,
                  line_number = n, is_active = a\<rparr>])"
proof (cases "assignment_of raw")
  case None
  then show ?thesis
    using parse_step_no_assignment [OF None] by (simp add: context_entry_def)
next
  case (Some t)
  obtain a p ds u where t: "t = (a, p, ds, u)" by (cases t)
  have st: "startswith (lower p) ''concurrent'' \<or> startswith (lower p) ''named''
           \<or> first_category (\<lambda>category. contains (lower p) (lower category)) \<noteq> None"
    using assms Some t by (simp add: stable_line_def)
  have "parse_step n raw st = parse_assignment n a p ds u st"
    using parse_step_split [of n raw st] Some t by simp
  then show ?thesis
    using parse_assignment_stable [OF st, of n a ds u st] Some t
    by (simp add: context_entry_def split: option.splits)
qed

lemma parse_lines_stable:
  assumes "\<forall>l\<in>set ls. stable_line l"
  shows "active_quads (entries (parse_lines n ls st)) =
           active_quads (entries st)
           \<union> {q. \<exists>(cc, l)\<in>set (annotate (current_category st) ls).
                    context_entry cc l = Some (q, True)}"
  using assms
proof (induction ls arbitrary: n st)
  case Nil
  then show ?case by simp
next
  case (Cons l ls)
  have l: "stable_line l" and ls: "\<forall>l\<in>set ls. stable_line l"
    using Cons.prems by simp_all
  have step: "active_quads (entries (parse_step n l st)) =
                active_quads (entries st)
                \<union> {q. context_entry (current_category st) l = Some (q, True)}"
  proof (cases "context_entry (current_category st) l")
    case None
    then show ?thesis unfolding parse_step_stable [OF l] by simp
  next
    case (Some t)
    obtain c m i u a where t: "t = ((c, m, i, u), a)" by (cases t) auto
    show ?thesis
      unfolding parse_step_stable [OF l] active_quads_append Some t
      by (cases a) (simp_all add: active_quads_def quad_def)
  qed
  show ?case
    using Cons.IH [OF ls, of "n + 1" "parse_step n l st"] step
    by (auto simp: parse_step_category)
qed

lemma valid_next_category: "valid_category cc \<Longrightarrow> valid_category (next_category cc raw)"
  by (auto simp: next_category_def valid_category_def Let_def
      split: option.splits dest: first_category_mem)

lemma context_entry_parsed:
  assumes "context_entry cc l = Some ((c, m, i, u), a)" "valid_category cc"
  shows "parsed_entry \<lparr>license_type = c, assignment_type = m, index = i, user_id = u,
                       line_number = n, is_active = a\<rparr>"
proof -
  from assms(1) obtain p ds uid where
    asg: "assignment_of l = Some (a, p, ds, uid)"
    and cat: "(case prefix_category p of Some c \<Rightarrow> Some c | None \<Rightarrow> cc) = Some c"
    and ne: "strip uid \<noteq> []" and m: "m = prefix_mode p" and i: "i = int_of_digits ds"
    and u: "u = strip uid"
    by (auto simp: context_entry_def split: option.splits if_splits)
  have c: "c \<in> set license_categories"
    using cat assms(2) prefix_category_mem [of p]
    by (auto simp: valid_category_def split: option.splits)
  have "CHR 0x0A \<notin> set uid" using asg by (rule assignment_of_no_newline)
  then have "CHR 0x0A \<notin> set u" using set_strip [of uid] u by blast
  then show ?thesis
    unfolding parsed_entry_def
    using c prefix_mode_mem [of p] int_of_digits_nonneg [of ds]
      ne strip_idem [of uid] m i u by simp
qed

lemma parse_lines_stable_parsed:
  assumes "\<forall>l\<in>set ls. stable_line l" "\<forall>e\<in>set (entries st). parsed_entry e"
    and "valid_category (current_category st)"
  shows "\<forall>e\<in>set (entries (parse_lines n ls st)). parsed_entry e"
  using assms
proof (induction ls arbitrary: n st)
  case Nil
  then show ?case by simp
next
  case (Cons l ls)
  have l: "stable_line l" and ls: "\<forall>l\<in>set ls. stable_line l"
    using Cons.prems(1) by simp_all
  have e: "\<forall>e\<in>set (entries (parse_step n l st)). parsed_entry e"
  proof (cases "context_entry (current_category st) l")
    case None
    then show ?thesis unfolding parse_step_stable [OF l] using Cons.prems(2) by simp
  next
    case (Some t)
    obtain c m i u a where t: "t = ((c, m, i, u), a)" by (cases t) auto
    show ?thesis
      unfolding parse_step_stable [OF l] Some t
      using Cons.prems(2) context_entry_parsed [OF Some [unfolded t] Cons.prems(3)] by simp
  qed
  have v: "valid_category (current_category (parse_step n l st))"
    unfolding parse_step_category using Cons.prems(3) by (rule valid_next_category)
  from Cons.IH [OF ls e v] show ?case by simp
qed

lemma parse_entries_stable:
  assumes "\<forall>l\<in>set (split_on (CHR 0x0A) t). stable_line l"
  shows "active_quads (parse_entries t) =
           {q. \<exists>(cc, l)\<in>set (annotate None (split_on (CHR 0x0A) t)).
                 context_entry cc l = Some (q, True)}"
    and "\<forall>e\<in>set (parse_entries t). parsed_entry e"
proof -
  show "active_quads (parse_entries t) =
           {q. \<exists>(cc, l)\<in>set (annotate None (split_on (CHR 0x0A) t)).
                 context_entry cc l = Some (q, True)}"
    unfolding parse_entries_def parse_lines_stable [OF assms]
    by (simp add: active_quads_def)
  show "\<forall>e\<in>set (parse_entries t). parsed_entry e"
    unfolding parse_entries_def
    by (rule parse_lines_stable_parsed [OF assms]) (simp_all add: valid_category_def)
qed

subsubsection \<open>The annotated lines\<close>

lemma annotate_append:
  "annotate cc (xs @ ys) = annotate cc xs @ annotate (after cc xs) ys"
  by (induction xs arbitrary: cc) (simp_all add: after_def)

lemma map_snd_annotate: "map snd (annotate cc ls) = ls"
  by (induction ls arbitrary: cc) simp_all

lemma annotate_lines: "(cc', l) \<in> set (annotate cc ls) \<Longrightarrow> l \<in> set ls"
  using map_snd_annotate [of cc ls] by (metis image_eqI set_map snd_conv)

lemma line_annotated: "l \<in> set ls \<Longrightarrow> \<exists>cc'. (cc', l) \<in> set (annotate cc ls)"
proof -
  assume "l \<in> set ls"
  then have "l \<in> snd ` set (annotate cc ls)"
    using map_snd_annotate [of cc ls] by (metis set_map)
  then show ?thesis by auto
qed

lemma after_plain: "\<forall>r\<in>set R. \<forall>c. next_category c r = c \<Longrightarrow> after cc R = cc"
  by (induction R arbitrary: cc) (simp_all add: after_def)

lemma annotate_plain:
  "\<forall>r\<in>set R. \<forall>c. next_category c r = c \<Longrightarrow> annotate cc R = map (Pair cc) R"
  by (induction R arbitrary: cc) simp_all

lemma annotate_insert:
  assumes "\<forall>r\<in>set R. \<forall>c. next_category c r = c"
  shows "set (annotate cc (take k L @ R @ drop k L)) =
           set (annotate cc L) \<union> Pair (after cc (take k L)) ` set R"
proof -
  let ?c = "after cc (take k L)"
  have "annotate cc (take k L @ R @ drop k L) =
          annotate cc (take k L) @ map (Pair ?c) R @ annotate ?c (drop k L)"
    by (simp add: annotate_append annotate_plain [OF assms] after_plain [OF assms])
  moreover have "annotate cc L = annotate cc (take k L) @ annotate ?c (drop k L)"
    using annotate_append [of cc "take k L" "drop k L"] by simp
  ultimately show ?thesis by auto
qed

lemma annotate_rebuild:
  "set (annotate c (rebuild cc ca ls)) \<subseteq> set (annotate c ls)"
proof (induction ls arbitrary: c cc ca)
  case Nil
  then show ?case by simp
next
  case (Cons l ls)
  let ?n = "next_category c l"
  have keep: "set (annotate c (l # rebuild cc' ca' ls)) \<subseteq> set (annotate c (l # ls))"
    for cc' ca'
    using Cons [of ?n cc' ca'] by auto
  show ?case
  proof (cases "startswith (strip l) header_marker")
    case True
    then show ?thesis using keep by (simp add: Let_def del: annotate.simps)
  next
    case False
    then have n: "?n = c" by (simp add: next_category_def)
    have drop: "set (annotate c (rebuild cc ca ls)) \<subseteq> set (annotate c (l # ls))"
      using Cons [of c cc ca] n by auto
    show ?thesis
      using keep drop False by (simp add: Let_def del: annotate.simps)
  qed
qed

subsection \<open>Rendered lines are no headers\<close>

lemma assignment_not_header: "assignment_of raw \<noteq> None \<Longrightarrow> next_category cc raw = cc"
  by (auto simp: assignment_of_def next_category_def Let_def split: if_splits)

lemma explicit_stable: "explicit_line raw \<Longrightarrow> stable_line raw"
  by (auto simp: explicit_line_def stable_line_def prefix_category_def split: option.splits)

lemma explicit_context: "explicit_line raw \<Longrightarrow> context_entry cc raw = explicit_entry raw"
  by (auto simp: explicit_line_def context_entry_def explicit_entry_def split: option.splits)

lemma rendered_inactive_assignment:
  assumes "parsed_entry e"
  shows "assignment_of (''# '' @ license_line (assignment_type e) (license_type e) (index e)
                           (LicenseEntry.user_id e) @ '' (removed)'') \<noteq> None"
proof -
  let ?at = "assignment_type e" and ?cat = "license_type e" and ?i = "index e"
    and ?u = "LicenseEntry.user_id e"
  let ?Q = "lower ?at @ ?cat"
  let ?v = "?u @ '' (removed)''"
  let ?M = "?Q @ ''User'' @ str_int ?i @ ''='' @ ?v"
  have at: "?at \<in> {''Named'', ''Concurrent''}" and cat: "?cat \<in> set license_categories"
    and i: "0 \<le> ?i" and u: "CHR 0x0A \<notin> set ?u"
    using assms by (simp_all add: parsed_entry_def)
  note p = prefix_of_rendered [OF at cat]
  note d = str_int_nonneg [OF i]
  have v: "?v \<noteq> []" "CHR 0x0A \<notin> set ?v" using u by simp_all
  have m: "re_match ?M = Some (?Q @ ''User'', str_int ?i, ?v)"
    using p(3) p(5) d(1) d(2) v by (rule re_match_rendered)
  have ne: "?M \<noteq> []" using p(5) by simp
  have hd: "hd ?M = hd ?Q" using p(5) by (rule hd_append2)
  have lu: "\<not> is_space (last ?M)" by (simp add: is_space_def code_def)
  have hs: "\<not> is_space (hd ?M)" using p(4) hd not_space_nc by simp
  have hh: "hd ?M \<notin> {CHR ''-'', CHR ''N'', CHR ''C''}" using p(4) hd by auto
  have "?M = (?Q @ ''User'' @ str_int ?i) @ ''='' @ ?v" by simp
  then have c: "contains ?M ''=''" using contains_mid by metis
  have shape: "''# '' @ license_line ?at ?cat ?i ?u @ '' (removed)'' = ''# '' @ ?M"
    by (simp add: license_line_def)
  have a: "assignment_of (''# '' @ ?M) = Some (False, ?Q @ ''User'', str_int ?i, ?v)"
    using assignment_of_commented [OF ne hs lu hh c] m by simp
  show ?thesis unfolding shape a by simp
qed

lemma rendered_plain:
  assumes "parsed_entry e"
  shows "next_category cc (render_entry (license_type e) (assignment_type e) e) = cc"
proof (rule assignment_not_header)
  show "assignment_of (render_entry (license_type e) (assignment_type e) e) \<noteq> None"
  proof (cases "is_active e")
    case True
    have "explicit_entry (render_entry (license_type e) (assignment_type e) e) \<noteq> None"
      using rendered_active(1) [OF assms] True by (simp add: render_entry_def)
    then show ?thesis by (auto simp: explicit_entry_def split: option.splits)
  next
    case False
    then show ?thesis
      using rendered_inactive_assignment [OF assms] by (simp add: render_entry_def)
  qed
qed

subsubsection \<open>The annotated lines while the groups are inserted\<close>

lemma insert_group_annotate:
  assumes "\<forall>e\<in>set es. \<forall>c'. next_category c' (render_entry c m e) = c'"
  shows "set (annotate cc L) \<subseteq> set (annotate cc (insert_group ((c, m), es) L))"
    and "set (annotate cc (insert_group ((c, m), es) L))
           \<subseteq> set (annotate cc L) \<union> (UNIV \<times> render_entry c m ` set es)"
proof -
  have plain: "\<forall>r\<in>set (map (render_entry c m) es). \<forall>c'. next_category c' r = c'"
    using assms by simp
  note ins = annotate_insert [OF plain, of cc _ L]
  from insert_group_cases [of c m es L]
  show "set (annotate cc L) \<subseteq> set (annotate cc (insert_group ((c, m), es) L))"
  proof (elim disjE exE)
    fix k
    assume "insert_group ((c, m), es) L = take k L @ map (render_entry c m) es @ drop k L"
    then show ?thesis using ins [of k] by simp
  qed simp
  from insert_group_cases [of c m es L]
  show "set (annotate cc (insert_group ((c, m), es) L))
           \<subseteq> set (annotate cc L) \<union> (UNIV \<times> render_entry c m ` set es)"
  proof (elim disjE exE)
    fix k
    assume "insert_group ((c, m), es) L = take k L @ map (render_entry c m) es @ drop k L"
    then show ?thesis using ins [of k] by auto
  qed auto
qed

lemma fold_insert_group_annotate:
  assumes "\<forall>((c, m), es)\<in>set gs. \<forall>e\<in>set es. \<forall>c'. next_category c' (render_entry c m e) = c'"
  shows "set (annotate cc L) \<subseteq> set (annotate cc (fold insert_group gs L))"
    and "set (annotate cc (fold insert_group gs L))
           \<subseteq> set (annotate cc L)
             \<union> (UNIV \<times> (\<Union>((c, m), es)\<in>set gs. render_entry c m ` set es))"
proof -
  have "set (annotate cc L) \<subseteq> set (annotate cc (fold insert_group gs L))
      \<and> set (annotate cc (fold insert_group gs L))
           \<subseteq> set (annotate cc L)
             \<union> (UNIV \<times> (\<Union>((c, m), es)\<in>set gs. render_entry c m ` set es))"
    using assms
  proof (induction gs arbitrary: L)
    case Nil
    then show ?case by simp
  next
    case (Cons g gs)
    obtain c m es where g: "g = ((c, m), es)" by (cases g) auto
    have pg: "\<forall>e\<in>set es. \<forall>c'. next_category c' (render_entry c m e) = c'"
      using Cons.prems unfolding g by auto
    have pgs: "\<forall>((c, m), es)\<in>set gs. \<forall>e\<in>set es. \<forall>c'.
                 next_category c' (render_entry c m e) = c'"
      using Cons.prems by simp
    note s = insert_group_annotate [OF pg, of cc L]
    note ih = Cons.IH [OF pgs, of "insert_group g L"]
    show ?case
    proof
      show "set (annotate cc L) \<subseteq> set (annotate cc (fold insert_group (g # gs) L))"
        using s(1) ih unfolding g by auto
      show "set (annotate cc (fold insert_group (g # gs) L))
           \<subseteq> set (annotate cc L)
             \<union> (UNIV \<times> (\<Union>((c, m), es)\<in>set (g # gs). render_entry c m ` set es))"
        using s(2) ih unfolding g by auto
    qed
  qed
  then show "set (annotate cc L) \<subseteq> set (annotate cc (fold insert_group gs L))"
    and "set (annotate cc (fold insert_group gs L))
           \<subseteq> set (annotate cc L)
             \<union> (UNIV \<times> (\<Union>((c, m), es)\<in>set gs. render_entry c m ` set es))"
    by simp_all
qed

subsection \<open>The round trip on the entry lists\<close>

lemma round_trip_entries:
  assumes "well_sectioned t"
  shows "active_quads (parse_entries (serialize t (parse_entries t)))
           = active_quads (parse_entries t)"
proof -
  let ?nl = "CHR 0x0A"
  let ?ls = "split_on ?nl t"
  let ?E = "parse_entries t"
  let ?K = "rebuild None None ?ls"
  let ?G = "grouped ?E"
  let ?F = "fold insert_group ?G ?K"
  let ?C = "{license_type a |a. a \<in> set ?E \<and> is_active a}"
  let ?R = "\<Union>((c, m), es)\<in>set ?G. render_entry c m ` set es"
  have stable: "\<forall>l\<in>set ?ls. stable_line l"
    using assms by (simp add: well_sectioned_def Let_def list_all_iff)
  have placed: "(cc, l) \<in> set (annotate None ?K) \<or> has_place (fst q) (fst (snd q)) ?K"
    if "(cc, l) \<in> set (annotate None ?ls)" "context_entry cc l = Some (q, True)" for cc l q
  proof -
    have "\<forall>(cc, line)\<in>set (annotate None ?ls).
               case context_entry cc line of
                 None \<Rightarrow> True
               | Some (q, active) \<Rightarrow>
                   \<not> active \<or> (cc, line) \<in> set (annotate None ?K)
                   \<or> has_place (fst q) (fst (snd q)) ?K"
      using assms by (simp add: well_sectioned_def Let_def list_all_iff)
    with that show ?thesis by fastforce
  qed
  have clean: "\<forall>e\<in>set ?E. \<forall>a\<in>set ?E. is_active a \<longrightarrow>
                  \<not> contains (render_entry (license_type e) (assignment_type e) e)
                       (section_marker (license_type a))"
    using assms by (simp add: well_sectioned_def Let_def list_all_iff)
  note pe = parse_entries_stable [OF stable]
  have parsed: "\<forall>e\<in>set ?E. parsed_entry e" by (rule pe(2))
  \<comment> \<open>the lines of the output\<close>
  have K_ls: "set ?K \<subseteq> set ?ls" by (rule set_rebuild)
  have rendered: "\<exists>e\<in>set ?E. l = render_entry (license_type e) (assignment_type e) e"
    if "l \<in> ?R" for l
  proof -
    from that obtain c m es e where "((c, m), es) \<in> set ?G" "e \<in> set es"
      "l = render_entry c m e" by auto
    with grouped_sound [of c m es ?E e] show ?thesis by auto
  qed
  have F_cases: "l \<in> set ?ls \<or> l \<in> ?R" if "l \<in> set ?F" for l
    using that fold_insert_group_upper [of ?G ?K] K_ls by blast
  have R_explicit: "explicit_line l" if "l \<in> ?R" for l
    using rendered [OF that] parsed rendered_explicit(1) by blast
  have F_stable: "\<forall>l\<in>set ?F. stable_line l"
    using F_cases stable R_explicit explicit_stable by blast
  have F_nl: "\<forall>l\<in>set ?F. ?nl \<notin> set l"
    using F_cases split_on_no_sep [of _ ?nl t] parsed rendered rendered_no_newline by blast
  obtain l0 ls0 where "?ls = l0 # ls0"
    using split_on_nonempty [of ?nl t] by (cases ?ls) auto
  then have "?K \<noteq> []" using rebuild_first [of None l0 ls0] by simp
  then have "?F \<noteq> []" using fold_insert_group_mono [of ?K ?G] by auto
  then have split: "split_on ?nl (serialize t ?E) = ?F"
    unfolding serialize_def using F_nl by (intro split_join) simp_all
  have aqF: "active_quads (parse_entries (serialize t ?E))
               = {q. \<exists>(cc, l)\<in>set (annotate None ?F). context_entry cc l = Some (q, True)}"
    using parse_entries_stable(1) [of "serialize t ?E"] F_stable unfolding split by simp
  have plain_G: "\<forall>((c, m), es)\<in>set ?G. \<forall>e\<in>set es. \<forall>c'.
                   next_category c' (render_entry c m e) = c'"
  proof (intro ballI, clarify)
    fix c m es e c'
    assume "((c, m), es) \<in> set ?G" "e \<in> set es"
    with grouped_sound [of c m es ?E e] parsed rendered_plain [of e c']
    show "next_category c' (render_entry c m e) = c'" by auto
  qed
  note ann = fold_insert_group_annotate [OF plain_G, of None ?K]
  have ann_K: "set (annotate None ?K) \<subseteq> set (annotate None ?ls)" by (rule annotate_rebuild)
  \<comment> \<open>no entry is new\<close>
  have sub: "{q. \<exists>(cc, l)\<in>set (annotate None ?F). context_entry cc l = Some (q, True)}
               \<subseteq> active_quads ?E"
  proof
    fix q assume "q \<in> {q. \<exists>(cc, l)\<in>set (annotate None ?F). context_entry cc l = Some (q, True)}"
    then obtain cc l where l: "(cc, l) \<in> set (annotate None ?F)"
      "context_entry cc l = Some (q, True)" by blast
    from l(1) ann(2) have "(cc, l) \<in> set (annotate None ?K) \<or> l \<in> ?R" by blast
    then show "q \<in> active_quads ?E"
    proof
      assume "(cc, l) \<in> set (annotate None ?K)"
      then have "(cc, l) \<in> set (annotate None ?ls)" using ann_K by blast
      then show ?thesis using l(2) unfolding pe(1) by blast
    next
      assume R: "l \<in> ?R"
      from rendered [OF R] obtain e where e: "e \<in> set ?E"
        "l = render_entry (license_type e) (assignment_type e) e" by blast
      have "explicit_entry l = Some (q, True)"
        using explicit_context [OF R_explicit [OF R], of cc] l(2) by simp
      then have "is_active e \<and> q = quad e"
        using rendered_explicit(2) [of e q] parsed e by blast
      then show ?thesis using e(1) by (auto simp: active_quads_def)
    qed
  qed
  \<comment> \<open>no entry is lost\<close>
  have clean_G: "\<forall>((c, m), es)\<in>set ?G. \<forall>e\<in>set es. \<forall>a\<in>?C.
             \<not> contains (render_entry c m e) (section_marker a)"
  proof (intro ballI, clarify)
    fix c m es e a
    assume "((c, m), es) \<in> set ?G" "e \<in> set es" "a \<in> set ?E" "is_active a"
      "contains (render_entry c m e) (section_marker (license_type a))"
    with grouped_sound [of c m es ?E e] clean show False by blast
  qed
  have sup: "active_quads ?E
               \<subseteq> {q. \<exists>(cc, l)\<in>set (annotate None ?F). context_entry cc l = Some (q, True)}"
  proof
    fix q assume q: "q \<in> active_quads ?E"
    then obtain cc l where l: "(cc, l) \<in> set (annotate None ?ls)"
      "context_entry cc l = Some (q, True)" unfolding pe(1) by blast
    from placed [OF l] show
      "q \<in> {q. \<exists>(cc, l)\<in>set (annotate None ?F). context_entry cc l = Some (q, True)}"
    proof
      assume "(cc, l) \<in> set (annotate None ?K)"
      then have "(cc, l) \<in> set (annotate None ?F)" using ann(1) by blast
      then show ?thesis using l(2) by blast
    next
      assume hp: "has_place (fst q) (fst (snd q)) ?K"
      from q obtain a where a: "a \<in> set ?E" "is_active a" "q = quad a"
        by (auto simp: active_quads_def)
      have hp': "has_place (license_type a) (assignment_type a) ?K"
        using hp a(3) by (simp add: quad_def)
      from grouped_complete [OF a(1)] obtain es where
        es: "((license_type a, assignment_type a), es) \<in> set ?G" "a \<in> set es" by blast
      have "license_type a \<in> ?C" using a by blast
      from fold_insert_group_renders [OF clean_G es(1) this hp']
      have "render_entry (license_type a) (assignment_type a) a \<in> set ?F"
        using es(2) by blast
      then obtain cc' where
        "(cc', render_entry (license_type a) (assignment_type a) a) \<in> set (annotate None ?F)"
        using line_annotated by blast
      moreover have "context_entry cc' (render_entry (license_type a) (assignment_type a) a)
                    = Some (q, True)"
        using explicit_context [of "render_entry (license_type a) (assignment_type a) a" cc']
          rendered_explicit(1) [of a] rendered_explicit(2) [of a q] parsed a by auto
      ultimately show ?thesis by blast
    qed
  qed
  show ?thesis unfolding aqF using sub sup by blast
qed

subsection \<open>Tokens that are not compound\<close>

lemma classify_simple:
  assumes "\<not> (contains i '' '' \<and> contains i ''@'')"
  shows "emails (classify i acc) = emails acc @ (if is_email_like i then [i] else [])"
    and "full_names (classify i acc) =
           full_names acc @ (if \<not> is_email_like i \<and> \<not> is_user_id_like i then [i] else [])"
proof -
  have c: "(contains i '' '' \<and> contains i ''@'') = False" using assms by simp
  show "emails (classify i acc) = emails acc @ (if is_email_like i then [i] else [])"
    unfolding classify_def c by simp
  show "full_names (classify i acc) =
           full_names acc @ (if \<not> is_email_like i \<and> \<not> is_user_id_like i then [i] else [])"
    unfolding classify_def c by simp
qed

lemma fold_classify_simple:
  assumes "\<forall>i\<in>set is. \<not> (contains i '' '' \<and> contains i ''@'')"
  shows "emails (fold classify is acc) = emails acc @ filter is_email_like is
       \<and> full_names (fold classify is acc) =
           full_names acc @ filter (\<lambda>i. \<not> is_email_like i \<and> \<not> is_user_id_like i) is"
  using assms
proof (induction "is" arbitrary: acc)
  case Nil
  then show ?case by simp
next
  case (Cons i "is")
  have i: "\<not> (contains i '' '' \<and> contains i ''@'')"
    and r: "\<forall>i\<in>set is. \<not> (contains i '' '' \<and> contains i ''@'')"
    using Cons.prems by simp_all
  show ?case
    using Cons.IH [OF r, of "classify i acc"] classify_simple [OF i, of acc] by simp
qed

section \<open>The mutation engine\<close>

subsection \<open>Slot allocation\<close>

text \<open>
  Claim C3. A successful \<^verbatim>\<open>add(user, category, mode)\<close> appends one active entry of
  that user to the entry list, and its index is the largest index of the active entries of
  the same category and mode plus 1, or 1 when that partition has no active entry.
\<close>

theorem add_slot_is_max_plus_one:
  assumes "add_user_license s user lt at = (True, s')"
  shows "\<exists>e. license_entries s' = license_entries s @ [e]
           \<and> license_type e = lt \<and> assignment_type e = at \<and> is_active e
           \<and> LicenseEntry.user_id e = User.user_id user
           \<and> index e =
               (if \<forall>x\<in>set (license_entries s).
                     \<not> (license_type x = lt \<and> assignment_type x = at \<and> is_active x)
                then 1
                else Max {index x |x. x \<in> set (license_entries s) \<and> license_type x = lt
                                   \<and> assignment_type x = at \<and> is_active x} + 1)"
  using add_user_license_True(2) [OF assms] find_available_slot_eq [of s lt at]
  by simp

text \<open>With the active indices 1, 2 and 4 the new index is 5, not the gap 3.\<close>

theorem add_slot_is_max_plus_one_witness:
  "add_user_license slots_124 user_d ''ALM'' ''Named'' = (True, slots_added)
   \<and> index (last (license_entries slots_added)) = 5"
proof -
  have h: "add_user_license slots_124 user_d ''ALM'' ''Named'' = (True, slots_added)"
    unfolding slots_added_def by code_simp
  from add_slot_is_max_plus_one [OF h] obtain e where
    e: "license_entries slots_added = license_entries slots_124 @ [e]"
       "index e =
         (if \<forall>x\<in>set (license_entries slots_124).
               \<not> (license_type x = ''ALM'' \<and> assignment_type x = ''Named'' \<and> is_active x)
          then 1
          else Max {index x |x. x \<in> set (license_entries slots_124) \<and> license_type x = ''ALM''
                             \<and> assignment_type x = ''Named'' \<and> is_active x} + 1)"
    by blast
  have "index e = 5"
    unfolding e(2) active_indices_set
    by (simp add: slots_124_def named_alm_def)
  then show ?thesis using h e(1) by simp
qed

text \<open>
  Claim C2, as stated, fails. With the active indices 1, 2 and 4, add yields 5; after the
  removal of that entry the entry with index 5 is inactive, and a further add in the same
  partition yields 5 again, not 6: the slot search reads the active entries only.
\<close>

theorem removed_slot_reused_counterexample:
  "fst (add_user_license slots_124 user_d ''ALM'' ''Named'')
   \<and> index (last (license_entries slots_added)) = 5
   \<and> fst (remove_user_license slots_added ''dins'' ''ALM'' ''Named'')
   \<and> license_entries slots_removed ! 3 = named_alm 5 ''dins'' False\<lparr>line_number := 0\<rparr>
   \<and> fst (add_user_license slots_removed user_e ''ALM'' ''Named'')
   \<and> last (license_entries slots_readded) = named_alm 5 ''eyal'' True\<lparr>line_number := 0\<rparr>"
  unfolding slots_readded_def slots_removed_def slots_added_def
  by code_simp

text \<open>
  Claim C2, amended. A successful add assigns an index larger than the index of every
  active entry of the same category and mode. So the index of an inactive (removed) entry
  of the partition is not assigned again as long as an active entry of the partition has
  an index at least as large.
\<close>

theorem add_slot_above_active:
  assumes "add_user_license s user lt at = (True, s')"
  shows "(\<forall>a\<in>set (license_entries s).
            license_type a = lt \<and> assignment_type a = at \<and> is_active a \<longrightarrow>
            index a < index (last (license_entries s')))
       \<and> (\<forall>e\<in>set (license_entries s).
            license_type e = lt \<and> assignment_type e = at \<and> \<not> is_active e
            \<and> (\<exists>a\<in>set (license_entries s).
                  license_type a = lt \<and> assignment_type a = at \<and> is_active a
                  \<and> index e \<le> index a) \<longrightarrow>
            index (last (license_entries s')) \<noteq> index e)"
proof -
  let ?P = "\<lambda>x. license_type x = lt \<and> assignment_type x = at \<and> is_active x"
  let ?A = "{index x |x. x \<in> set (license_entries s) \<and> ?P x}"
  have last: "index (last (license_entries s')) = find_available_slot s lt at"
    using add_user_license_True(2) [OF assms] by simp
  have fin: "finite ?A" by simp
  have above: "index a < index (last (license_entries s'))"
    if "a \<in> set (license_entries s)" "?P a" for a
  proof -
    have "index a \<in> ?A" using that by blast
    then have "index a \<le> Max ?A" using fin by (rule Max_ge [rotated])
    moreover have "find_available_slot s lt at = Max ?A + 1"
      using that by (subst find_available_slot_eq) auto
    ultimately show ?thesis using last by simp
  qed
  show ?thesis
  proof (intro conjI ballI impI)
    fix a assume "a \<in> set (license_entries s)" "?P a"
    then show "index a < index (last (license_entries s'))" by (rule above)
  next
    fix e assume "e \<in> set (license_entries s)"
      and h: "license_type e = lt \<and> assignment_type e = at \<and> \<not> is_active e
            \<and> (\<exists>a\<in>set (license_entries s).
                  license_type a = lt \<and> assignment_type a = at \<and> is_active a
                  \<and> index e \<le> index a)"
    then obtain a where a: "a \<in> set (license_entries s)" "?P a" "index e \<le> index a"
      by blast
    from above [OF a(1,2)] a(3) show "index (last (license_entries s')) \<noteq> index e"
      by simp
  qed
qed

text \<open>With the indices 1, 2, 4 active and 3 removed, the add does not assign 3.\<close>

theorem add_slot_above_active_witness:
  "add_user_license slots_gap user_d ''ALM'' ''Named'' = (True, slots_gap_added)
   \<and> index (last (license_entries slots_gap_added)) \<noteq> 3"
proof -
  have h: "add_user_license slots_gap user_d ''ALM'' ''Named'' = (True, slots_gap_added)"
    unfolding slots_gap_added_def by code_simp
  have e: "named_alm 3 ''u3'' False \<in> set (license_entries slots_gap)"
    by (simp add: slots_gap_def)
  have p: "license_type (named_alm 3 ''u3'' False) = ''ALM''
           \<and> assignment_type (named_alm 3 ''u3'' False) = ''Named''
           \<and> \<not> is_active (named_alm 3 ''u3'' False)
           \<and> (\<exists>a\<in>set (license_entries slots_gap).
                 license_type a = ''ALM'' \<and> assignment_type a = ''Named'' \<and> is_active a
                 \<and> index (named_alm 3 ''u3'' False) \<le> index a)"
    by (simp add: slots_gap_def named_alm_def)
  from add_slot_above_active [OF h] e p
  have "index (last (license_entries slots_gap_added)) \<noteq> index (named_alm 3 ''u3'' False)"
    by blast
  then show ?thesis using h by (simp add: named_alm_def)
qed

subsection \<open>Add and the uniqueness of licences\<close>

text \<open>
  Claim C4. Add returns failure whenever the user already has an active entry, of any
  category and any assignment type, with the user ids compared without regard to case,
  and then leaves the session unchanged. The code breaks the claim for a user outside the
  directory whose entry is not written in lower case: the table keys that entry by the
  literal \<^verbatim>\<open>Bob\<close>, the add looks up \<^verbatim>\<open>bob\<close>, finds nothing, succeeds and appends a
  second active entry. The same user written \<^verbatim>\<open>bob\<close> is refused, and remove finds the
  entry of \<^verbatim>\<open>Bob\<close> under the id \<^verbatim>\<open>bob\<close>.
\<close>

theorem add_succeeds_for_licensed_stale_user:
  "license_entries stale_Bob = [named_alm 1 ''Bob'' True]
   \<and> is_active (named_alm 1 ''Bob'' True)
   \<and> LicenseEntry.user_id (named_alm 1 ''Bob'' True) = User.user_id user_Bob
   \<and> fst (add_user_license stale_Bob user_Bob ''QA'' ''Concurrent'')
   \<and> map quad (license_entries (snd (add_user_license stale_Bob user_Bob ''QA'' ''Concurrent'')))
       = [(''ALM'', ''Named'', 1, ''Bob''), (''QA'', ''Concurrent'', 1, ''Bob'')]
   \<and> map is_active
         (license_entries (snd (add_user_license stale_Bob user_Bob ''QA'' ''Concurrent'')))
       = [True, True]
   \<and> add_user_license stale_bob user_bob ''QA'' ''Concurrent'' = (False, stale_bob)
   \<and> fst (remove_user_license stale_Bob ''bob'' ''ALM'' ''Named'')"
  by code_simp

text \<open>
  For a user whose lower-case id is a key of the directory the check works: add fails
  whenever an active entry carries the user's id (compared in lower case), whatever its
  category and assignment type and whatever is asked for, and the state returned is the
  state given.
\<close>

theorem add_fails_for_licensed_directory_user:
  assumes "lower (User.user_id user) \<in> fst ` set (users s)"
    and "\<exists>e\<in>set (license_entries s).
           is_active e \<and> lower (LicenseEntry.user_id e) = lower (User.user_id user)"
  shows "add_user_license s user lt at = (False, s)"
proof -
  have "filter (\<lambda>e. is_active e \<and> lower (LicenseEntry.user_id e) = lower (User.user_id user))
          (license_entries s) \<noteq> []"
    using assms(2) by (simp add: filter_empty_conv)
  then have "get_list (build_combined_user_license_table s) (lower (User.user_id user)) \<noteq> []"
    using table_directory_user [OF lower_idem assms(1)] by simp
  then show ?thesis by (rule add_user_license_False)
qed

text \<open>A directory user with a Named/ALM entry is refused a Concurrent/QA licence.\<close>

theorem add_fails_for_licensed_directory_user_witness:
  "add_user_license one_named_alm user_b ''QA'' ''Concurrent'' = (False, one_named_alm)"
proof -
  have 1: "lower (User.user_id user_b) \<in> fst ` set (users one_named_alm)"
    by code_simp
  have 2: "\<exists>e\<in>set (license_entries one_named_alm).
             is_active e \<and> lower (LicenseEntry.user_id e) = lower (User.user_id user_b)"
    by code_simp
  from add_fails_for_licensed_directory_user [OF 1 2] show ?thesis .
qed

subsection \<open>Switch\<close>

text \<open>
  Claim C6. When the user is in the directory and has exactly one active entry, which is
  Named/ALM, the switch to Concurrent/QA succeeds; afterwards the user has exactly one
  active entry, which is Concurrent/QA, and the former entry is still at its place in the
  entry list, with \<^verbatim>\<open>is_active\<close> false.
\<close>

theorem switch_named_alm_to_concurrent_qa:
  assumes in_dir: "lower (User.user_id user) \<in> fst ` set (users s)"
    and one: "filter (\<lambda>e. is_active e
                \<and> lower (LicenseEntry.user_id e) = lower (User.user_id user))
              (license_entries s) = [e0]"
    and e0: "license_type e0 = ''ALM''" "assignment_type e0 = ''Named''"
  shows "\<exists>s' k enew.
           switch_user_license s user ''ALM'' ''Named'' ''QA'' ''Concurrent'' = Inr (True, s')
         \<and> filter (\<lambda>e. is_active e
                \<and> lower (LicenseEntry.user_id e) = lower (User.user_id user))
              (license_entries s') = [enew]
         \<and> license_type enew = ''QA'' \<and> assignment_type enew = ''Concurrent''
         \<and> k < length (license_entries s) \<and> license_entries s ! k = e0
         \<and> length (license_entries s') = Suc (length (license_entries s))
         \<and> license_entries s' ! k = e0\<lparr>is_active := False\<rparr>"
proof -
  let ?u = "User.user_id user"
  let ?Q = "\<lambda>e. is_active e \<and> lower (LicenseEntry.user_id e) = lower ?u"
  let ?M = "matches ?u ''ALM'' ''Named''"
  have "e0 \<in> set (filter ?Q (license_entries s))"
    unfolding one by simp
  then have e0_in: "e0 \<in> set (license_entries s)" and e0_Q: "?Q e0"
    by simp_all
  have "?M e0" using e0_Q e0 by (simp add: matches_def)
  then have "first_index ?M (license_entries s) \<noteq> None"
    using e0_in by (auto simp: first_index_None)
  then obtain k where k: "first_index ?M (license_entries s) = Some k" by blast
  note kk = first_index_Some [OF k]
  have k_len: "k < length (license_entries s)" using kk by simp
  have Qk: "?Q (license_entries s ! k)" using kk by (simp add: matches_def)
  have nth_k: "license_entries s ! k = e0"
    using filter_single_mem [OF one _ Qk] k_len by simp
  define s1 where "s1 = snd (remove_user_license s ?u ''ALM'' ''Named'')"
  note r = remove_user_license_Some [OF k, folded s1_def]
  have rem: "remove_user_license s ?u ''ALM'' ''Named'' = (True, s1)"
    using r(1) by (simp add: s1_def prod_eq_iff)
  have ent1: "license_entries s1 = (license_entries s)[k := e0\<lparr>is_active := False\<rparr>]"
    using r(2) nth_k by simp
  have none1: "filter ?Q (license_entries s1) = []"
    unfolding ent1 by (rule filter_single_update [OF one k_len Qk]) simp
  have "get_list (build_combined_user_license_table s1) (lower ?u) = []"
    using table_directory_user [of "lower ?u" s1] in_dir r(3) none1
    by (simp add: lower_idem)
  note a = add_user_license_empty [OF this, of "''QA''" "''Concurrent''"]
  define s2 where "s2 = snd (add_user_license s1 user ''QA'' ''Concurrent'')"
  note a2 = a [folded s2_def]
  have add: "add_user_license s1 user ''QA'' ''Concurrent'' = (True, s2)"
    using a2(1) by (simp add: s2_def prod_eq_iff)
  obtain c1 c2 where "changes s2 = changes s @ [c1, c2]"
    using a2(3) r(5) by auto
  then obtain cs where cs: "mark_switch (changes s2) = Inr cs"
    using mark_switch_two [of "changes s" c1 c2] by auto
  let ?new = "\<lparr>license_type = ''QA'', assignment_type = ''Concurrent'',
               index = find_available_slot s1 ''QA'' ''Concurrent'',
               user_id = ?u, line_number = 0, is_active = True\<rparr>"
  have sw: "switch_user_license s user ''ALM'' ''Named'' ''QA'' ''Concurrent''
            = Inr (True, s2\<lparr>changes := cs\<rparr>)"
    by (simp add: switch_user_license_def rem add cs)
  have ent2: "license_entries (s2\<lparr>changes := cs\<rparr>) = license_entries s1 @ [?new]"
    using a2(2) by simp
  have f2: "filter ?Q (license_entries (s2\<lparr>changes := cs\<rparr>)) = [?new]"
    unfolding ent2 using none1 by simp
  have len2: "length (license_entries (s2\<lparr>changes := cs\<rparr>)) = Suc (length (license_entries s))"
    unfolding ent2 ent1 by simp
  have nth2: "license_entries (s2\<lparr>changes := cs\<rparr>) ! k = e0\<lparr>is_active := False\<rparr>"
    unfolding ent2 ent1 using k_len by (simp add: nth_append)
  show ?thesis
    using sw f2 len2 nth2 k_len nth_k
    by (intro exI [where x = "s2\<lparr>changes := cs\<rparr>"] exI [where x = k] exI [where x = ?new]) simp
qed

text \<open>The switch of a directory user with one Named/ALM entry succeeds.\<close>

theorem switch_named_alm_to_concurrent_qa_witness:
  "\<exists>s'. switch_user_license one_named_alm user_b ''ALM'' ''Named'' ''QA'' ''Concurrent''
          = Inr (True, s')"
proof -
  have 1: "lower (User.user_id user_b) \<in> fst ` set (users one_named_alm)"
    by code_simp
  have 2: "filter (\<lambda>e. is_active e
              \<and> lower (LicenseEntry.user_id e) = lower (User.user_id user_b))
            (license_entries one_named_alm) = [named_alm 2 ''bshrager'' True]"
    by code_simp
  have 3: "license_type (named_alm 2 ''bshrager'' True) = ''ALM''"
    and 4: "assignment_type (named_alm 2 ''bshrager'' True) = ''Named''"
    by (simp_all add: named_alm_def)
  from switch_named_alm_to_concurrent_qa [OF 1 2 3 4] show ?thesis by blast
qed

subsection \<open>Remove\<close>



subsection \<open>Stale entries in the per-user table\<close>

text \<open>
  Claim C10, as stated, fails. Two active entries of user \<^verbatim>\<open>bob\<close>, who is not in the
  directory: the first creates the key \<^verbatim>\<open>bob\<close>, the second finds its lower-case id
  among the keys and is appended, so the list holds both entries.
\<close>

theorem stale_entries_appended_counterexample:
  "users stale_twice_lower = []
   \<and> license_entries stale_twice_lower = [named_alm 1 ''bob'' True, named_alm 2 ''bob'' True]
   \<and> build_combined_user_license_table stale_twice_lower
       = [(''bob'', [named_alm 1 ''bob'' True, named_alm 2 ''bob'' True])]"
  by code_simp

text \<open>
  Claim C10, amended. When the lower-case form of a user id is neither a key of the
  directory nor the literal user id of an active entry, and active entries carry that user
  id, the table maps the user id to the singleton list of the last such entry, and no
  other such entry is in any list of the table.
\<close>

theorem stale_entries_overwritten:
  assumes not_dir: "lower uid \<notin> fst ` set (users s)"
    and no_lower: "\<forall>e\<in>set (license_entries s).
                     is_active e \<longrightarrow> LicenseEntry.user_id e \<noteq> lower uid"
    and some: "filter (\<lambda>e. is_active e \<and> LicenseEntry.user_id e = uid) (license_entries s) \<noteq> []"
  shows "map_of (build_combined_user_license_table s) uid =
           Some [last (filter (\<lambda>e. is_active e \<and> LicenseEntry.user_id e = uid)
                         (license_entries s))]
       \<and> (\<forall>(k, l)\<in>set (build_combined_user_license_table s). \<forall>e\<in>set l.
             LicenseEntry.user_id e = uid \<longrightarrow>
             k = uid \<and> e = last (filter (\<lambda>e. is_active e \<and> LicenseEntry.user_id e = uid)
                                    (license_entries s)))"
proof -
  let ?t = "build_combined_user_license_table s"
  let ?last = "last (filter (\<lambda>e. is_active e \<and> LicenseEntry.user_id e = uid) (license_entries s))"
  from stale_inv_fold [OF stale_inv_init [OF not_dir] no_lower]
  have inv: "stale_inv uid ?t" and m: "map_of ?t uid = Some [?last]"
    using some by (simp_all add: build_combined_user_license_table_def)
  have "k = uid \<and> e = ?last"
    if "(k, l) \<in> set ?t" "e \<in> set l" "LicenseEntry.user_id e = uid" for k l e
  proof -
    have k: "k = uid" using inv that unfolding stale_inv_def by blast
    then have "map_of ?t uid = Some l"
      using that(1) distinct_table_keys [of s] by simp
    then have "l = [?last]" using m by simp
    then show ?thesis using k that(2) by simp
  qed
  then show ?thesis using m by blast
qed

text \<open>Two active entries of user \<^verbatim>\<open>Bob\<close>: only the second is in the table.\<close>

theorem stale_entries_overwritten_witness:
  "map_of (build_combined_user_license_table stale_twice_mixed) ''Bob''
     = Some [named_alm 2 ''Bob'' True]"
proof -
  have 1: "lower ''Bob'' \<notin> fst ` set (users stale_twice_mixed)"
    by code_simp
  have 2: "\<forall>e\<in>set (license_entries stale_twice_mixed).
             is_active e \<longrightarrow> LicenseEntry.user_id e \<noteq> lower ''Bob''"
    by code_simp
  have 3: "filter (\<lambda>e. is_active e \<and> LicenseEntry.user_id e = ''Bob'')
             (license_entries stale_twice_mixed) \<noteq> []"
    by code_simp
  have 4: "last (filter (\<lambda>e. is_active e \<and> LicenseEntry.user_id e = ''Bob'')
             (license_entries stale_twice_mixed)) = named_alm 2 ''Bob'' True"
    by code_simp
  from stale_entries_overwritten [OF 1 2 3] show ?thesis
    unfolding 4 by blast
qed

section \<open>The parser\<close>

text \<open>
  Claim C5 says that under a subheader for named users a line whose prefix starts with
  neither \<^verbatim>\<open>named\<close> nor \<^verbatim>\<open>concurrent\<close> gets the assignment type of the context.
  The parser sets \<^verbatim>\<open>Concurrent\<close> for such a prefix before it looks at the context, so the
  later test \<^verbatim>\<open>if not assignment_type and current_assignment_type\<close> never passes: the
  line below is parsed as Concurrent under the subheader of the named users.
\<close>

theorem parser_defaults_to_concurrent:
  "parse_entries named_section_text =
     [\<lparr>license_type = ''ALM'', assignment_type = ''Concurrent'', index = 1,
       user_id = ''bob'', line_number = 2, is_active = True\<rparr>]"
  by code_simp

section \<open>The query\<close>

text \<open>
  Claim C8. When the directory has the key \<^verbatim>\<open>bshrager\<close> and the only active entry of
  that user is \<^verbatim>\<open>namedALMUser1=bshrager\<close>, the query for \<^verbatim>\<open>bshrager\<close> returns one result,
  with status \<^verbatim>\<open>has_license\<close> and the licence list \<^verbatim>\<open>["namedALMUser1=bshrager"]\<close>; and
  for every session and every list of identifiers each status returned is one of
  \<^verbatim>\<open>not_found\<close>, \<^verbatim>\<open>no_license\<close>, \<^verbatim>\<open>has_license\<close> and \<^verbatim>\<open>no_active_license\<close>.
\<close>

theorem query_end_to_end:
  "(\<forall>s u e.
      map_of (users s) ''bshrager'' = Some u \<and> lower (User.user_id u) = ''bshrager''
      \<and> filter (\<lambda>x. is_active x \<and> lower (LicenseEntry.user_id x) = ''bshrager'')
           (license_entries s) = [e]
      \<and> license_type e = ''ALM'' \<and> assignment_type e = ''Named'' \<and> index e = 1
      \<and> LicenseEntry.user_id e = ''bshrager''
      \<longrightarrow> (\<exists>r. query_user_licenses s [''bshrager''] = [r]
               \<and> status r = ''has_license''
               \<and> licenses r = Some [''namedALMUser1=bshrager'']))
   \<and> (\<forall>s ids. \<forall>r\<in>set (query_user_licenses s ids).
         status r \<in> {''not_found'', ''no_license'', ''has_license'', ''no_active_license''})"
proof (intro conjI allI impI ballI)
  fix s :: manager and u :: User and e :: LicenseEntry
  assume h: "map_of (users s) ''bshrager'' = Some u \<and> lower (User.user_id u) = ''bshrager''
      \<and> filter (\<lambda>x. is_active x \<and> lower (LicenseEntry.user_id x) = ''bshrager'')
           (license_entries s) = [e]
      \<and> license_type e = ''ALM'' \<and> assignment_type e = ''Named'' \<and> index e = 1
      \<and> LicenseEntry.user_id e = ''bshrager''"
  have found: "find_user_by_identifier s ''bshrager'' = Some u"
    using h by (simp add: find_user_by_identifier_def lower_bshrager)
  have key: "''bshrager'' \<in> fst ` set (users s)"
    using h by (metis map_of_eq_None_iff option.distinct(1))
  have tab: "get_list (build_combined_user_license_table s) (lower (User.user_id u)) = [e]"
    using table_directory_user [OF lower_bshrager(2) key] h by simp
  have tab': "get_list (build_combined_user_license_table s) ''bshrager'' = [e]"
    using tab h by simp
  have act: "is_active e"
  proof -
    have "e \<in> set (filter (\<lambda>x. is_active x \<and> lower (LicenseEntry.user_id x) = ''bshrager'')
                     (license_entries s))" using h by simp
    then show ?thesis by simp
  qed
  have one: "query_user_licenses s [''bshrager'']
             = [query_one s (build_combined_user_license_table s)
                  (fold count_entry (filter is_active (license_entries s)) [])
                  (fold count_entry (filter is_active [e]) []) ''bshrager'']"
    by (simp add: query_user_licenses_def Let_def found tab)
  show "\<exists>r. query_user_licenses s [''bshrager''] = [r]
               \<and> status r = ''has_license''
               \<and> licenses r = Some [''namedALMUser1=bshrager'']"
    unfolding one
    using h act by (simp add: query_one_def found tab' Let_def line_bshrager)
next
  fix s :: manager and ids :: "string list" and r :: query_result
  assume "r \<in> set (query_user_licenses s ids)"
  then obtain i where "r = query_one s (build_combined_user_license_table s)
        (fold count_entry (filter is_active (license_entries s)) [])
        (fold (\<lambda>ident stats.
                    case find_user_by_identifier s ident of
                      None \<Rightarrow> stats
                    | Some u \<Rightarrow>
                        fold count_entry
                          (filter is_active (get_list (build_combined_user_license_table s) (lower (User.user_id u))))
                          stats)
              ids []) i"
    by (auto simp: query_user_licenses_def Let_def)
  then show "status r \<in> {''not_found'', ''no_license'', ''has_license'', ''no_active_license''}"
    using query_one_status by simp
qed

text \<open>The session that has parsed a configuration text with that one assignment line.\<close>

theorem query_end_to_end_witness:
  "\<exists>r. query_user_licenses bshrager_session [''bshrager''] = [r]
        \<and> status r = ''has_license'' \<and> licenses r = Some [''namedALMUser1=bshrager'']"
proof -
  have h: "map_of (users bshrager_session) ''bshrager'' = Some user_b
      \<and> lower (User.user_id user_b) = ''bshrager''
      \<and> filter (\<lambda>x. is_active x \<and> lower (LicenseEntry.user_id x) = ''bshrager'')
           (license_entries bshrager_session) = [named_alm 1 ''bshrager'' True\<lparr>line_number := 3\<rparr>]
      \<and> license_type (named_alm 1 ''bshrager'' True\<lparr>line_number := 3\<rparr>) = ''ALM''
      \<and> assignment_type (named_alm 1 ''bshrager'' True\<lparr>line_number := 3\<rparr>) = ''Named''
      \<and> index (named_alm 1 ''bshrager'' True\<lparr>line_number := 3\<rparr>) = 1
      \<and> LicenseEntry.user_id (named_alm 1 ''bshrager'' True\<lparr>line_number := 3\<rparr>) = ''bshrager''"
    by code_simp
  from query_end_to_end h show ?thesis by blast
qed

section \<open>The classification of mixed identifiers\<close>

text \<open>
  Claim C9, as stated, fails for each of the three lists: \<^verbatim>\<open>parse_mixed_identifiers\<close>
  removes no duplicate. A token that occurs twice is listed twice (\<^verbatim>\<open>dins, dins\<close> for the
  user ids, \<^verbatim>\<open>Bob S, Bob S\<close> for the full names), and a compound token adds its parts,
  which may repeat another token (\<^verbatim>\<open>Bob a@b.c, a@b.c\<close> for the emails, with two distinct
  tokens).
\<close>

theorem classification_duplicates_counterexample:
  "user_ids (parse_mixed_identifiers ''dins, dins'') = [''dins'', ''dins'']
   \<and> full_names (parse_mixed_identifiers ''Bob S, Bob S'') = [''Bob S'', ''Bob S'']
   \<and> identifiers_of ''Bob a@b.c, a@b.c'' = [''Bob a@b.c'', ''a@b.c'']
   \<and> emails (parse_mixed_identifiers ''Bob a@b.c, a@b.c'') = [''a@b.c'', ''a@b.c'']"
  by code_simp

text \<open>
  Claim C9, amended. The list of user ids is the list of the stripped, non-empty pieces of
  the input that the chain of tests classifies as user ids, in the order of the input and
  as often as they occur; it has no duplicate when these pieces are pairwise distinct.
  When no piece is compound (none contains both a space and \<^verbatim>\<open>@\<close>), the emails and the
  full names are likewise the pieces classified as emails and as full names, and each of
  the three lists has no duplicate when the pieces are pairwise distinct.
\<close>

theorem classification_keeps_tokens:
  "user_ids (parse_mixed_identifiers t) =
     filter (\<lambda>i. \<not> (contains i '' '' \<and> contains i ''@'') \<and> \<not> is_email_like i
                   \<and> is_user_id_like i) (identifiers_of t)
   \<and> (distinct (identifiers_of t) \<longrightarrow> distinct (user_ids (parse_mixed_identifiers t)))
   \<and> ((\<forall>i\<in>set (identifiers_of t). \<not> (contains i '' '' \<and> contains i ''@'')) \<longrightarrow>
        emails (parse_mixed_identifiers t) = filter is_email_like (identifiers_of t)
        \<and> full_names (parse_mixed_identifiers t) =
            filter (\<lambda>i. \<not> is_email_like i \<and> \<not> is_user_id_like i) (identifiers_of t)
        \<and> (distinct (identifiers_of t) \<longrightarrow>
              distinct (emails (parse_mixed_identifiers t))
              \<and> distinct (full_names (parse_mixed_identifiers t))))"
proof (intro conjI impI)
  show u: "user_ids (parse_mixed_identifiers t) =
     filter (\<lambda>i. \<not> (contains i '' '' \<and> contains i ''@'') \<and> \<not> is_email_like i
                   \<and> is_user_id_like i) (identifiers_of t)"
    by (simp add: parse_mixed_identifiers_def user_ids_fold_classify)
  show "distinct (user_ids (parse_mixed_identifiers t))" if "distinct (identifiers_of t)"
    unfolding u using that by simp
next
  assume s: "\<forall>i\<in>set (identifiers_of t). \<not> (contains i '' '' \<and> contains i ''@'')"
  note f = fold_classify_simple [OF s, of "\<lparr>user_ids = [], full_names = [], emails = []\<rparr>"]
  show e: "emails (parse_mixed_identifiers t) = filter is_email_like (identifiers_of t)"
    using f by (simp add: parse_mixed_identifiers_def)
  show n: "full_names (parse_mixed_identifiers t) =
            filter (\<lambda>i. \<not> is_email_like i \<and> \<not> is_user_id_like i) (identifiers_of t)"
    using f by (simp add: parse_mixed_identifiers_def)
  assume d: "distinct (identifiers_of t)"
  show "distinct (emails (parse_mixed_identifiers t))" unfolding e using d by simp
  show "distinct (full_names (parse_mixed_identifiers t))" unfolding n using d by simp
qed

text \<open>The input of the specification: three distinct pieces, none of them compound.\<close>

theorem classification_keeps_tokens_witness:
  "parse_mixed_identifiers ''dins, Bob Shrager, bob.shrager@co.com''
       = \<lparr>user_ids = [''dins''], full_names = [''Bob Shrager''],
          emails = [''bob.shrager@co.com'']\<rparr>
   \<and> distinct (user_ids (parse_mixed_identifiers ''dins, Bob Shrager, bob.shrager@co.com''))
   \<and> distinct (emails (parse_mixed_identifiers ''dins, Bob Shrager, bob.shrager@co.com''))
   \<and> distinct (full_names (parse_mixed_identifiers ''dins, Bob Shrager, bob.shrager@co.com''))"
proof -
  let ?t = "''dins, Bob Shrager, bob.shrager@co.com''"
  have d: "distinct (identifiers_of ?t)"
    by code_simp
  have s: "\<forall>i\<in>set (identifiers_of ?t). \<not> (contains i '' '' \<and> contains i ''@'')"
    by code_simp
  from classification_keeps_tokens [of ?t] d s
  have "distinct (user_ids (parse_mixed_identifiers ?t))
      \<and> distinct (emails (parse_mixed_identifiers ?t))
      \<and> distinct (full_names (parse_mixed_identifiers ?t))"
    by blast
  moreover have "parse_mixed_identifiers ?t
       = \<lparr>user_ids = [''dins''], full_names = [''Bob Shrager''],
          emails = [''bob.shrager@co.com'']\<rparr>"
    by code_simp
  ultimately show ?thesis by simp
qed

section \<open>The round trip\<close>

lemma round_trip_alm_in_qa:
  "map quad (filter is_active
       (license_entries (snd (parse_license_configuration empty_session alm_in_qa_text))))
     = [(''ALM'', ''Named'', 1, ''bob'')]
   \<and> map quad (filter is_active (reparsed empty_session alm_in_qa_text)) = []"
  by code_simp

lemma round_trip_stale_part:
  "map quad (filter is_active
       (license_entries (snd (parse_license_configuration empty_session stale_part_text))))
     = [(''QA'', ''Concurrent'', 1, ''eve # NAMED USERS:''), (''QA'', ''Concurrent'', 2, ''al''),
        (''ALM'', ''Named'', 1, ''bob'')]
   \<and> map quad (filter is_active (reparsed empty_session stale_part_text))
     = [(''QA'', ''Concurrent'', 1, ''eve # NAMED USERS:''), (''ALM'', ''Named'', 1, ''bob''),
        (''ALM'', ''Concurrent'', 2, ''al''), (''ALM'', ''Named'', 1, ''bob'')]"
  by code_simp

lemma round_trip_marker_in_user_id:
  "map quad (filter is_active
       (license_entries (snd (parse_license_configuration empty_session marker_in_user_id_text))))
     = [(''ALM'', ''Concurrent'', 1, ''x POLARION ALM''), (''ALM'', ''Named'', 1, ''bob'')]
   \<and> map quad (filter is_active (reparsed empty_session marker_in_user_id_text))
     = [(''ALM'', ''Concurrent'', 1, ''x POLARION ALM'')]"
  by code_simp

text \<open>
  Claim C1, as stated, fails, in three ways. An assignment line for ALM stands in the
  section of QA: the serializer leaves the line out and finds no section for ALM, so the
  second parse has lost the entry. A line without a category in its prefix takes the
  category that an earlier line left in \<^verbatim>\<open>category_part\<close>; in the output another line
  stands before it, and the second parse has a new entry and has lost one. A user id
  contains a section marker: once its line is inserted, the search of the next group
  starts from that line, finds no subheader, and the second parse has lost the entry.
\<close>

theorem round_trip_counterexample:
  "map quad (filter is_active
       (license_entries (snd (parse_license_configuration empty_session alm_in_qa_text))))
     = [(''ALM'', ''Named'', 1, ''bob'')]
   \<and> map quad (filter is_active (reparsed empty_session alm_in_qa_text)) = []
   \<and> map quad (filter is_active
       (license_entries (snd (parse_license_configuration empty_session stale_part_text))))
     = [(''QA'', ''Concurrent'', 1, ''eve # NAMED USERS:''), (''QA'', ''Concurrent'', 2, ''al''),
        (''ALM'', ''Named'', 1, ''bob'')]
   \<and> map quad (filter is_active (reparsed empty_session stale_part_text))
     = [(''QA'', ''Concurrent'', 1, ''eve # NAMED USERS:''), (''ALM'', ''Named'', 1, ''bob''),
        (''ALM'', ''Concurrent'', 2, ''al''), (''ALM'', ''Named'', 1, ''bob'')]
   \<and> map quad (filter is_active
       (license_entries (snd (parse_license_configuration empty_session marker_in_user_id_text))))
     = [(''ALM'', ''Concurrent'', 1, ''x POLARION ALM''), (''ALM'', ''Named'', 1, ''bob'')]
   \<and> map quad (filter is_active (reparsed empty_session marker_in_user_id_text))
     = [(''ALM'', ''Concurrent'', 1, ''x POLARION ALM'')]"
  using round_trip_alm_in_qa round_trip_stale_part round_trip_marker_in_user_id
  by (simp only: simp_thms)

text \<open>
  Claim C1, amended. Take a configuration text in which every assignment line is stable
  (its prefix starts with \<^verbatim>\<open>named\<close> or \<^verbatim>\<open>concurrent\<close>, or contains a category name), in
  which every line that yields an active entry is kept by the serializer under the same
  ambient category or has, for the category and the assignment type of its entry, a place
  among the kept lines (a line that contains \<^verbatim>\<open>POLARION\<close> and the category and, from the
  last such line on, a line that contains the subheader of the assignment type), and in
  which no line that the serializer renders for an entry contains \<^verbatim>\<open>POLARION\<close> and the
  category of an active entry. Then parsing the text, serializing the unmodified entry
  list and parsing the output yields the same set of quadruples of active entries as
  parsing the text.
\<close>

theorem round_trip_well_sectioned:
  assumes "well_sectioned config_text"
  shows "active_quads (reparsed s config_text)
           = active_quads (license_entries (snd (parse_license_configuration s config_text)))"
  using round_trip_entries [OF assms]
  by (simp add: reparsed_eq parse_license_configuration_def)

text \<open>A text with a line before any header and a line that takes its category from the
  section, and a text of one assignment line without any header.\<close>

theorem round_trip_well_sectioned_witness:
  "active_quads (reparsed empty_session context_text)
     = {(''ALM'', ''Named'', 3, ''eve''), (''ALM'', ''Named'', 1, ''bob'')}
   \<and> active_quads (reparsed empty_session headerless_text)
     = {(''ALM'', ''Named'', 1, ''bob'')}"
proof -
  have w1: "well_sectioned context_text"
    by code_simp
  have w2: "well_sectioned headerless_text"
    by code_simp
  have p1: "map quad (filter is_active (parse_entries context_text)) =
     [(''ALM'', ''Named'', 3, ''eve''), (''ALM'', ''Named'', 1, ''bob'')]"
    by code_simp
  have p2: "map quad (filter is_active (parse_entries headerless_text)) =
     [(''ALM'', ''Named'', 1, ''bob'')]"
    by code_simp
  have e: "active_quads (license_entries (snd (parse_license_configuration empty_session t)))
        = set (map quad (filter is_active (parse_entries t)))" for t
    by (simp add: active_quads_def parse_license_configuration_def)
  show ?thesis
    unfolding round_trip_well_sectioned [OF w1, of empty_session]
      round_trip_well_sectioned [OF w2, of empty_session] e p1 p2
    by auto
qed

end
